theory Spec2Isabelle
  imports Main
begin

section \<open>Python values used by \<open>nif.py\<close>\<close>

text \<open>
  The module works on Python lists of integers (the digits of a number), on strings and on
  slices. Integers are unbounded, so they are \<open>int\<close>. An exception is a value of the type
  \<open>error\<close>; a function that may raise returns \<open>error + 'a\<close> with \<open>Inl\<close> for the exception.
  The module runs under Python 3: indexing and slicing go through \<open>__getitem__\<close> and
  \<open>__setitem__\<close> (\<open>__getslice__\<close> and \<open>__setslice__\<close> are never called), and an
  order comparison of an integer with \<open>None\<close> raises \<open>TypeError\<close>.
\<close>

datatype error = IndexError | ValueError | TypeError | RecursionError

subsection \<open>\<open>str\<close> of an integer and \<open>int\<close> of a character\<close>

definition digit_char :: "nat \<Rightarrow> char" where
  "digit_char n = ''0123456789'' ! n"

fun str_nat :: "nat \<Rightarrow> string" where
  "str_nat n = (if n < 10 then [digit_char n] else str_nat (n div 10) @ [digit_char (n mod 10)])"

declare str_nat.simps [simp del]

definition str_int :: "int \<Rightarrow> string" where
  "str_int i = (if i < 0 then CHR ''-'' # str_nat (nat (- i)) else str_nat (nat i))"

text \<open>\<open>int(c)\<close> for a one-character string: the digit, or \<open>ValueError\<close>.\<close>

definition int_of_char :: "char \<Rightarrow> error + int" where
  "int_of_char c =
     (case map_of (zip ''0123456789'' [0, 1, 2, 3, 4, 5, 6, 7, 8, 9]) c of
        None \<Rightarrow> Inl ValueError
      | Some d \<Rightarrow> Inr d)"

text \<open>\<open>list(map(int, list(num)))\<close>: the first character that is no digit raises.\<close>

fun ints_of_str :: "string \<Rightarrow> error + int list" where
  "ints_of_str [] = Inr []"
| "ints_of_str (c # cs) =
     (case int_of_char c of
        Inl e \<Rightarrow> Inl e
      | Inr d \<Rightarrow> (case ints_of_str cs of Inl e \<Rightarrow> Inl e | Inr ds \<Rightarrow> Inr (d # ds)))"

text \<open>\<open>s.startswith(p)\<close>.\<close>

fun startswith :: "string \<Rightarrow> string \<Rightarrow> bool" where
  "startswith s [] = True"
| "startswith [] (p # ps) = False"
| "startswith (c # cs) (p # ps) = (c = p \<and> startswith cs ps)"

subsection \<open>Assignment to a list item and to a list slice\<close>

text \<open>
  \<open>xs[i] = v\<close> on a list: a negative index counts from the end, an index outside
  \<open>[-len, len)\<close> raises \<open>IndexError\<close>.
\<close>

definition position :: "int list \<Rightarrow> int \<Rightarrow> nat option" where
  "position xs i =
     (if 0 \<le> i \<and> i < int (length xs) then Some (nat i)
      else if i < 0 \<and> - int (length xs) \<le> i then Some (nat (i + int (length xs)))
      else None)"

definition list_setitem :: "int list \<Rightarrow> int \<Rightarrow> int \<Rightarrow> error + int list" where
  "list_setitem xs i v =
     (case position xs i of None \<Rightarrow> Inl IndexError | Some j \<Rightarrow> Inr (xs[j := v]))"

text \<open>\<open>xs[i]\<close> on a list, with the same positions.\<close>

definition list_getitem :: "int \<Rightarrow> int list \<Rightarrow> error + int" where
  "list_getitem i xs =
     (case position xs i of None \<Rightarrow> Inl IndexError | Some j \<Rightarrow> Inr (xs ! j))"

text \<open>
  A slice object \<open>slice(start, stop, step)\<close>; each part is an integer or \<open>None\<close>.
  \<open>slice_indices\<close> is what \<open>slice.indices(len)\<close> computes for a step other than 0:
  an absent step is 1, and each bound is moved into the list.
\<close>

record pyslice =
  start :: "int option"
  stop :: "int option"
  step :: "int option"

definition clamp_bound :: "int \<Rightarrow> int \<Rightarrow> int \<Rightarrow> int" where
  "clamp_bound n stp i =
     (if i < 0 then (if i + n < 0 then (if stp < 0 then - 1 else 0) else i + n)
      else if n \<le> i then (if stp < 0 then n - 1 else n)
      else i)"

definition slice_indices :: "pyslice \<Rightarrow> int \<Rightarrow> int \<times> int \<times> int" where
  "slice_indices sl n =
     (let stp = (case step sl of None \<Rightarrow> 1 | Some k \<Rightarrow> k);
          st = (case start sl of
                  None \<Rightarrow> (if stp < 0 then n - 1 else 0)
                | Some i \<Rightarrow> clamp_bound n stp i);
          en = (case stop sl of
                  None \<Rightarrow> (if stp < 0 then - 1 else n)
                | Some i \<Rightarrow> clamp_bound n stp i)
      in (st, en, stp))"

definition slice_length :: "int \<Rightarrow> int \<Rightarrow> int \<Rightarrow> int" where
  "slice_length st en stp =
     (if stp < 0 then (if en < st then (st - en - 1) div (- stp) + 1 else 0)
      else (if st < en then (en - st - 1) div stp + 1 else 0))"

fun assign_each :: "int list \<Rightarrow> int \<Rightarrow> int \<Rightarrow> int list \<Rightarrow> int list" where
  "assign_each xs cur stp [] = xs"
| "assign_each xs cur stp (v # vs) = assign_each (xs[nat cur := v]) (cur + stp) stp vs"

text \<open>
  \<open>xs[sl] = vs\<close> on a list. With step 1 the slice is replaced by \<open>vs\<close>, whatever its
  length; with another step the two lengths must agree (\<open>ValueError\<close> otherwise) and the
  items are replaced one by one. A step of 0 raises \<open>ValueError\<close>.
\<close>

definition list_setslice :: "int list \<Rightarrow> pyslice \<Rightarrow> int list \<Rightarrow> error + int list" where
  "list_setslice xs sl vs =
     (if step sl = Some 0 then Inl ValueError
      else (case slice_indices sl (int (length xs)) of
        (st, en, stp) \<Rightarrow>
          if stp = 1 then Inr (take (nat st) xs @ vs @ drop (nat (max st en)) xs)
          else if int (length vs) \<noteq> slice_length st en stp then Inl ValueError
          else Inr (assign_each xs st stp vs)))"

subsection \<open>Random numbers\<close>

text \<open>
  \<open>rand\<close> is \<open>random.randrange\<close>: \<open>rand(n)\<close> returns some integer in \<open>[0, n)\<close> for a
  positive \<open>n\<close>. The outcome of a call is fixed by a raw value \<open>r\<close> of the random source;
  reducing \<open>r\<close> modulo \<open>n\<close> reaches every integer of \<open>[0, n)\<close> and no other.
\<close>

definition rand :: "nat \<Rightarrow> nat \<Rightarrow> int" where
  "rand n r = int (r mod n)"

section \<open>The class \<open>Nif\<close>: constants and the check digit\<close>

definition BASE_LENGTH :: nat where
  "BASE_LENGTH = 8"

text \<open>
  \<open>Nif._eval_sum(elements)\<close>: a left fold of \<open>_ruler\<close> over \<open>enumerate(elements[:8])\<close>,
  reduced modulo 11 (Python's \<open>%\<close> with a positive divisor is \<open>mod\<close> on \<open>int\<close>).
\<close>

definition ruler :: "int \<Rightarrow> nat \<times> int \<Rightarrow> int" where
  "ruler x y = x + (9 - int (fst y)) * snd y"

definition static_eval_sum :: "int list \<Rightarrow> int" where
  "static_eval_sum elements =
     (let sum = foldl ruler 0 (enumerate 0 (take BASE_LENGTH elements)) mod 11
      in if sum < 2 then 0 else 11 - sum)"

section \<open>Methods of an instance whose \<open>_nif\<close> is a list of digits\<close>

text \<open>
  The methods read and write the list \<open>self._nif\<close>; here they take the list and return
  the list as the method leaves it. A method that raises leaves the list as it was.
\<close>

definition eval_sum :: "int list \<Rightarrow> int" where
  "eval_sum nif = static_eval_sum (take BASE_LENGTH nif)"

definition get_sum_digit :: "int list \<Rightarrow> error + int" where
  "get_sum_digit nif = (if BASE_LENGTH < length nif then Inr (nif ! BASE_LENGTH) else Inl IndexError)"

text \<open>\<open>self._nif[8:] = [value]\<close>: everything from position 8 on is replaced by the value.\<close>

definition set_sum_digit :: "int list \<Rightarrow> int \<Rightarrow> int list" where
  "set_sum_digit nif v = take BASE_LENGTH nif @ [v]"

definition fix_sum :: "int list \<Rightarrow> int list" where
  "fix_sum nif = set_sum_digit nif (eval_sum nif)"

text \<open>
  \<open>__setitem__(index, item)\<close>: \<open>AtSlice\<close> is the branch of a slice index with a list of
  digits, \<open>AtIndex\<close> the branch of an integer index with one digit. The comparison
  \<open>-8 < index.start < 8\<close> raises \<open>TypeError\<close> when the start is \<open>None\<close>.
\<close>

datatype assignment = AtIndex int int | AtSlice pyslice "int list"

text \<open>The assignment \<open>self._nif[index] = item\<close> alone.\<close>

fun list_assign :: "int list \<Rightarrow> assignment \<Rightarrow> error + int list" where
  "list_assign nif (AtIndex i v) = list_setitem nif i v"
| "list_assign nif (AtSlice sl vs) = list_setslice nif sl vs"

fun setitem :: "int list \<Rightarrow> assignment \<Rightarrow> error + int list" where
  "setitem nif (AtSlice sl vs) =
     (case start sl of
        None \<Rightarrow> Inl TypeError
      | Some s \<Rightarrow>
          if - int BASE_LENGTH < s \<and> s < int BASE_LENGTH
          then (case list_setslice nif sl vs of Inl e \<Rightarrow> Inl e | Inr l \<Rightarrow> Inr (fix_sum l))
          else Inl IndexError)"
| "setitem nif (AtIndex i v) =
     (case list_setitem nif i v of Inl e \<Rightarrow> Inl e | Inr l \<Rightarrow> Inr (fix_sum l))"

text \<open>\<open>__str__\<close>: \<open>''.join(map(str, self._nif))\<close>.\<close>

definition Nif_str :: "int list \<Rightarrow> string" where
  "Nif_str nif = concat (map str_int nif)"

text \<open>
  \<open>is_valid\<close>, given the lists that \<open>Nif._COMBINATIONS\<close> holds when it is called. Python's
  \<open>and\<close> does not read the ninth digit unless the length is 9.
\<close>

definition validator :: "int list \<Rightarrow> bool \<Rightarrow> int list \<Rightarrow> bool" where
  "validator nif x y = (x \<or> startswith (Nif_str nif) (concat (map str_int y)))"

definition is_valid :: "int list list \<Rightarrow> int list \<Rightarrow> bool" where
  "is_valid cat nif =
     (length nif = BASE_LENGTH + 1
      \<and> foldl (validator nif) False cat
      \<and> nif ! BASE_LENGTH = eval_sum nif)"

text \<open>The catalogue as the class body writes it.\<close>

definition COMBINATIONS :: "int list list" where
  "COMBINATIONS =
     [[1], [2], [5], [6], [7, 0], [7, 1], [7, 7], [7, 9], [8], [9, 0], [9, 1], [9, 8], [9, 9]]"

text \<open>
  \<open>__init__(num, fill)\<close> for a string \<open>num\<close> that is not empty. \<open>draws k\<close> is the raw
  value behind the \<open>k\<close>-th call of \<open>rand(9)\<close>.
\<close>

definition init_str :: "(nat \<Rightarrow> nat) \<Rightarrow> string \<Rightarrow> bool \<Rightarrow> error + int list" where
  "init_str draws num fill =
     (case ints_of_str num of
        Inl e \<Rightarrow> Inl e
      | Inr nif \<Rightarrow>
          if fill then
            (let len = length nif;
                 nif1 = (if len < 8 then nif @ map (\<lambda>k. rand 9 (draws k)) [0..<8 - len] else nif);
                 nif2 = (if len < 9 then set_sum_digit nif1 (eval_sum nif1) else nif1)
             in Inr nif2)
          else Inr nif)"

section \<open>Objects: shared lists and instances\<close>

text \<open>
  Python lists are objects: two names of one list see each other's writes. The lists live in
  a heap of addresses; \<open>Nif._COMBINATIONS\<close> is an outer list of references to the inner
  lists (only the inner lists are ever written), and the class attribute \<open>Nif._nif = []\<close>
  is one list that every instance without an attribute \<open>_nif\<close> of its own reads.
  An instance has the attribute \<open>_nif\<close>, which refers to a list or to another instance,
  and the attribute \<open>_balanced\<close> once \<open>generate\<close> has set it.
\<close>

type_synonym addr = nat

datatype target = ListAt addr | NifAt addr

record nif_object =
  self_nif :: target
  self_balanced :: "addr list option"

record world =
  heap :: "addr \<Rightarrow> int list"
  fresh :: addr
  objects :: "addr \<Rightarrow> nif_object"
  fresh_object :: addr
  combinations :: "addr list"
  class_nif :: addr

text \<open>The module just loaded: the thirteen inner lists, then the empty class attribute.\<close>

definition initial_world :: world where
  "initial_world =
     \<lparr>heap = (\<lambda>a. if a < length COMBINATIONS then COMBINATIONS ! a else []),
      fresh = 14,
      objects = (\<lambda>p. \<lparr>self_nif = ListAt 13, self_balanced = None\<rparr>),
      fresh_object = 0,
      combinations = [0..<13],
      class_nif = 13\<rparr>"

definition new_list :: "int list \<Rightarrow> world \<Rightarrow> addr \<times> world" where
  "new_list xs w = (fresh w, w\<lparr>heap := (heap w)(fresh w := xs), fresh := Suc (fresh w)\<rparr>)"

definition new_object :: "nif_object \<Rightarrow> world \<Rightarrow> addr \<times> world" where
  "new_object obj w =
     (fresh_object w, w\<lparr>objects := (objects w)(fresh_object w := obj), fresh_object := Suc (fresh_object w)\<rparr>)"

subsection \<open>\<open>_fair_combinations\<close>\<close>

text \<open>
  \<open>gen(c)\<close> yields ten new lists \<open>[c[0]]\<close> when \<open>c\<close> has one element, and the list \<open>c\<close>
  itself (not a copy) otherwise; \<open>norm\<close> concatenates what \<open>gen\<close> yields over the catalogue.
\<close>

fun new_lists :: "nat \<Rightarrow> int list \<Rightarrow> world \<Rightarrow> addr list \<times> world" where
  "new_lists 0 xs w = ([], w)"
| "new_lists (Suc n) xs w =
     (case new_list xs w of (a, w1) \<Rightarrow>
        (case new_lists n xs w1 of (as, w2) \<Rightarrow> (a # as, w2)))"

definition gen :: "addr \<Rightarrow> world \<Rightarrow> addr list \<times> world" where
  "gen c w = (if length (heap w c) = 1 then new_lists 10 [heap w c ! 0] w else ([c], w))"

fun norm_gen :: "addr list \<Rightarrow> world \<Rightarrow> addr list \<times> world" where
  "norm_gen [] w = ([], w)"
| "norm_gen (c # cs) w =
     (case gen c w of (ys, w1) \<Rightarrow>
        (case norm_gen cs w1 of (zs, w2) \<Rightarrow> (ys @ zs, w2)))"

definition fair_combinations :: "world \<Rightarrow> addr list \<times> world" where
  "fair_combinations w = norm_gen (combinations w) w"

subsection \<open>\<open>__init__\<close>\<close>

text \<open>
  \<open>Nif(num, fill)\<close>. An argument that is falsy (\<open>None\<close>, an empty list, an empty string)
  leaves the instance on the class attribute; an instance is always truthy. A list is
  stored by reference, a string is converted into a new list.
\<close>

datatype argument = NoArg | FromNif addr | FromList addr | FromStr string

definition Nif_init :: "(nat \<Rightarrow> nat) \<Rightarrow> argument \<Rightarrow> bool \<Rightarrow> world \<Rightarrow> error + addr \<times> world" where
  "Nif_init draws num fill w =
     (case num of
        NoArg \<Rightarrow> Inr (new_object \<lparr>self_nif = ListAt (class_nif w), self_balanced = None\<rparr> w)
      | FromNif q \<Rightarrow> Inr (new_object \<lparr>self_nif = NifAt q, self_balanced = None\<rparr> w)
      | FromList a \<Rightarrow>
          Inr (new_object
                 \<lparr>self_nif = ListAt (if heap w a = [] then class_nif w else a),
                  self_balanced = None\<rparr> w)
      | FromStr s \<Rightarrow>
          if s = [] then Inr (new_object \<lparr>self_nif = ListAt (class_nif w), self_balanced = None\<rparr> w)
          else (case init_str draws s fill of
                  Inl e \<Rightarrow> Inl e
                | Inr ds \<Rightarrow>
                    (case new_list ds w of (l, w1) \<Rightarrow>
                       Inr (new_object \<lparr>self_nif = ListAt l, self_balanced = None\<rparr> w1))))"

subsection \<open>Reading and writing through \<open>self._nif\<close>\<close>

text \<open>
  \<open>__getitem__\<close> and \<open>__iter__\<close> hand the request to \<open>self._nif\<close>, so a read of an
  instance built from an instance goes down to the list at the end of the chain.
  The first argument bounds the depth of nested calls, as the interpreter's recursion limit
  does; a longer chain raises \<open>RecursionError\<close>. \<open>rd\<close> is the read made on the list.
\<close>

fun read_through :: "nat \<Rightarrow> world \<Rightarrow> target \<Rightarrow> (int list \<Rightarrow> error + 'a) \<Rightarrow> error + 'a" where
  "read_through k w (ListAt l) rd = rd (heap w l)"
| "read_through 0 w (NifAt q) rd = Inl RecursionError"
| "read_through (Suc k) w (NifAt q) rd = read_through k w (self_nif (objects w q)) rd"

definition getitem_at :: "nat \<Rightarrow> world \<Rightarrow> addr \<Rightarrow> int \<Rightarrow> error + int" where
  "getitem_at k w p i = read_through k w (self_nif (objects w p)) (list_getitem i)"

definition str_at :: "nat \<Rightarrow> world \<Rightarrow> addr \<Rightarrow> error + string" where
  "str_at k w p = read_through k w (self_nif (objects w p)) (\<lambda>xs. Inr (Nif_str xs))"

definition eval_sum_at :: "nat \<Rightarrow> world \<Rightarrow> addr \<Rightarrow> error + int" where
  "eval_sum_at k w p =
     read_through k w (self_nif (objects w p)) (\<lambda>xs. Inr (static_eval_sum (take BASE_LENGTH xs)))"

text \<open>
  \<open>store k w t asg\<close> is the statement \<open>t[index] = item\<close>: a list is written in place;
  an instance runs its \<open>__setitem__\<close>, which is \<open>setitem_at\<close>. The result is the world
  as the statement leaves it and the exception raised, if any: an exception raised after a
  write leaves the write in place. \<open>fix_sum\<close> is \<open>set_sum_digit(eval_sum())\<close>, and
  \<open>set_sum_digit(v)\<close> is the statement \<open>self._nif[8:] = [v]\<close>.
\<close>

definition guard :: "assignment \<Rightarrow> error option" where
  "guard asg =
     (case asg of
        AtIndex i v \<Rightarrow> None
      | AtSlice sl vs \<Rightarrow>
          (case start sl of
             None \<Rightarrow> Some TypeError
           | Some s \<Rightarrow>
               if - int BASE_LENGTH < s \<and> s < int BASE_LENGTH then None else Some IndexError))"

definition sum_digit_slice :: pyslice where
  "sum_digit_slice = \<lparr>start = Some (int BASE_LENGTH), stop = None, step = None\<rparr>"

fun store :: "nat \<Rightarrow> world \<Rightarrow> target \<Rightarrow> assignment \<Rightarrow> world \<times> error option"
  and setitem_at :: "nat \<Rightarrow> world \<Rightarrow> addr \<Rightarrow> assignment \<Rightarrow> world \<times> error option"
where
  "store k w (ListAt l) asg =
     (case list_assign (heap w l) asg of
        Inl e \<Rightarrow> (w, Some e)
      | Inr xs \<Rightarrow> (w\<lparr>heap := (heap w)(l := xs)\<rparr>, None))"
| "store 0 w (NifAt q) asg = (w, Some RecursionError)"
| "store (Suc k) w (NifAt q) asg = setitem_at k w q asg"
| "setitem_at k w p asg =
     (case guard asg of
        Some e \<Rightarrow> (w, Some e)
      | None \<Rightarrow>
          (case store k w (self_nif (objects w p)) asg of
             (w1, Some e) \<Rightarrow> (w1, Some e)
           | (w1, None) \<Rightarrow>
               (case eval_sum_at k w1 p of
                  Inl e \<Rightarrow> (w1, Some e)
                | Inr v \<Rightarrow> store k w1 (self_nif (objects w1 p)) (AtSlice sum_digit_slice [v]))))"

definition set_sum_digit_at :: "nat \<Rightarrow> world \<Rightarrow> addr \<Rightarrow> int \<Rightarrow> world \<times> error option" where
  "set_sum_digit_at k w p v = store k w (self_nif (objects w p)) (AtSlice sum_digit_slice [v])"

definition fix_sum_at :: "nat \<Rightarrow> world \<Rightarrow> addr \<Rightarrow> world \<times> error option" where
  "fix_sum_at k w p =
     (case eval_sum_at k w p of
        Inl e \<Rightarrow> (w, Some e)
      | Inr v \<Rightarrow> set_sum_digit_at k w p v)"

subsection \<open>\<open>is_valid\<close> and \<open>generate\<close>\<close>

text \<open>
  \<open>is_valid\<close> reads the catalogue as the heap holds it at the call. \<open>len(self._nif)\<close>
  raises \<open>TypeError\<close> when \<open>self._nif\<close> is an instance, which has no \<open>__len__\<close>.
\<close>

definition is_valid_at :: "world \<Rightarrow> addr \<Rightarrow> error + bool" where
  "is_valid_at w p =
     (case self_nif (objects w p) of
        ListAt l \<Rightarrow> Inr (is_valid (map (heap w) (combinations w)) (heap w l))
      | NifAt q \<Rightarrow> Inl TypeError)"

text \<open>
  \<open>generate\<close>. \<open>draws 0\<close> is the raw value behind \<open>rand(len(comb))\<close>, which raises
  \<open>ValueError\<close> for an empty \<open>comb\<close>; \<open>draws (Suc n)\<close> is the one behind the \<open>n\<close>-th
  \<open>rand(9)\<close>. The name \<open>_nif\<close> is bound to the chosen element of \<open>comb\<close>, so the two
  slice assignments write that list in place; \<open>list(_nif)\<close> is a new list.
\<close>

definition generate :: "(nat \<Rightarrow> nat) \<Rightarrow> world \<Rightarrow> addr \<Rightarrow> world \<times> error option" where
  "generate draws w p =
     (case (case self_balanced (objects w p) of
              None \<Rightarrow> fair_combinations w
            | Some b \<Rightarrow> (b, w)) of
        (comb, w0) \<Rightarrow>
          (let w1 = w0\<lparr>objects := (objects w0)(p := (objects w0 p)\<lparr>self_balanced := Some comb\<rparr>)\<rparr>
           in if comb = [] then (w1, Some ValueError)
              else
                (let a = comb ! nat (rand (length comb) (draws 0));
                     lnif = length (heap w1 a);
                     nif1 = heap w1 a @ map (\<lambda>n. rand 9 (draws (Suc n))) [0..<BASE_LENGTH - lnif];
                     nif2 = take BASE_LENGTH nif1 @ [static_eval_sum nif1];
                     w2 = w1\<lparr>heap := (heap w1)(a := nif2)\<rparr>
                 in (case new_list nif2 w2 of
                       (l, w3) \<Rightarrow>
                         (w3\<lparr>objects := (objects w3)(p := (objects w3 p)\<lparr>self_nif := ListAt l\<rparr>)\<rparr>,
                          None)))))"

text \<open>\<open>Nif.generate_nif()\<close> is \<open>Nif().generate()\<close>.\<close>

definition generate_nif :: "(nat \<Rightarrow> nat) \<Rightarrow> world \<Rightarrow> addr \<times> world \<times> error option" where
  "generate_nif draws w =
     (case new_object \<lparr>self_nif = ListAt (class_nif w), self_balanced = None\<rparr> w of
        (p, w1) \<Rightarrow> (p, generate draws w1 p))"

section \<open>Runs of the program and what they preserve\<close>

text \<open>
  A world is reachable when a caller gets to it from the loaded module by building
  instances and calling their methods. A caller holds the instances it built and the lists
  it made itself, which it may write after it has passed them to an instance
  (\<open>list_written\<close>); the inner lists of the catalogue and the lists of a
  \<open>_balanced\<close> cache are reached through the methods only.
\<close>

inductive reachable :: "world \<Rightarrow> bool" where
  loaded: "reachable initial_world"
| built: "reachable w \<Longrightarrow> num = NoArg \<or> (\<exists>s. num = FromStr s) \<or> (\<exists>q < fresh_object w. num = FromNif q)
           \<Longrightarrow> Nif_init draws num fill w = Inr (p, w') \<Longrightarrow> reachable w'"
| built_on_new_list: "reachable w \<Longrightarrow> new_list ds w = (a, w1)
           \<Longrightarrow> Nif_init draws (FromList a) fill w1 = Inr (p, w') \<Longrightarrow> reachable w'"
| built_on_held_list: "reachable w \<Longrightarrow> q < fresh_object w \<Longrightarrow> self_nif (objects w q) = ListAt a
           \<Longrightarrow> Nif_init draws (FromList a) fill w = Inr (p, w') \<Longrightarrow> reachable w'"
| generated: "reachable w \<Longrightarrow> p < fresh_object w \<Longrightarrow> generate draws w p = (w', r) \<Longrightarrow> reachable w'"
| assigned: "reachable w \<Longrightarrow> p < fresh_object w \<Longrightarrow> setitem_at k w p asg = (w', r) \<Longrightarrow> reachable w'"
| sum_fixed: "reachable w \<Longrightarrow> p < fresh_object w \<Longrightarrow> fix_sum_at k w p = (w', r) \<Longrightarrow> reachable w'"
| sum_digit_set: "reachable w \<Longrightarrow> p < fresh_object w \<Longrightarrow> set_sum_digit_at k w p v = (w', r)
           \<Longrightarrow> reachable w'"
| list_written: "reachable w \<Longrightarrow> q < fresh_object w \<Longrightarrow> self_nif (objects w q) = ListAt a
           \<Longrightarrow> reachable (w\<lparr>heap := (heap w)(a := xs)\<rparr>)"

text \<open>\<open>extends w w'\<close>: \<open>w'\<close> is \<open>w\<close> with new lists only.\<close>

definition extends :: "world \<Rightarrow> world \<Rightarrow> bool" where
  "extends w w' \<longleftrightarrow>
     fresh w \<le> fresh w' \<and> (\<forall>a < fresh w. heap w' a = heap w a)
     \<and> objects w' = objects w \<and> fresh_object w' = fresh_object w
     \<and> combinations w' = combinations w \<and> class_nif w' = class_nif w"

text \<open>What \<open>gen\<close> yields for a catalogue entry, as values.\<close>

definition expand :: "int list \<Rightarrow> int list list" where
  "expand c = (if length c = 1 then replicate 10 [c ! 0] else [c])"

text \<open>
  The invariant of the reachable worlds. Every list of a cache is either an inner list of
  the catalogue that has not one element, or a list of its own that starts with the digit
  of a one-element catalogue entry; the list behind an instance, and the class attribute
  \<open>_nif\<close>, are neither in the catalogue nor in a cache.
\<close>

definition balanced_ok :: "world \<Rightarrow> addr list \<Rightarrow> bool" where
  "balanced_ok w b \<longleftrightarrow>
     b \<noteq> [] \<and>
     (\<forall>a \<in> set b. a < fresh w \<and>
        (a \<in> set (combinations w) \<and> length (heap w a) \<noteq> 1
         \<or> a \<notin> set (combinations w) \<and> heap w a \<noteq> []
            \<and> (\<exists>c \<in> set (combinations w). heap w c = [hd (heap w a)])))"

definition private_list :: "world \<Rightarrow> addr \<Rightarrow> bool" where
  "private_list w l \<longleftrightarrow>
     l < fresh w \<and> l \<notin> set (combinations w)
     \<and> (\<forall>q b. self_balanced (objects w q) = Some b \<longrightarrow> l \<notin> set b)"

definition consistent :: "world \<Rightarrow> bool" where
  "consistent w \<longleftrightarrow>
     combinations w \<noteq> [] \<and> (\<forall>c \<in> set (combinations w). c < fresh w)
     \<and> (\<forall>p b. self_balanced (objects w p) = Some b \<longrightarrow> balanced_ok w b)
     \<and> (\<forall>p l. self_nif (objects w p) = ListAt l \<longrightarrow> private_list w l)
     \<and> private_list w (class_nif w)"

text \<open>\<open>private_writes w w'\<close>: \<open>w'\<close> is \<open>w\<close> but for the contents of private lists.\<close>

definition private_writes :: "world \<Rightarrow> world \<Rightarrow> bool" where
  "private_writes w w' \<longleftrightarrow>
     fresh w' = fresh w \<and> objects w' = objects w \<and> fresh_object w' = fresh_object w
     \<and> combinations w' = combinations w \<and> class_nif w' = class_nif w
     \<and> (\<forall>a. \<not> private_list w a \<longrightarrow> heap w' a = heap w a)"

text \<open>
  \<open>small_digits xs\<close>: the digits of \<open>xs\<close> at the positions 2 to 7, where every prefix of
  the catalogue has been padded, are between 0 and 8. \<open>small_lists w\<close>: this holds for
  every list of the catalogue and of a cache.
\<close>

definition small_digits :: "int list \<Rightarrow> bool" where
  "small_digits xs \<longleftrightarrow> (\<forall>i. 2 \<le> i \<and> i < 8 \<and> i < length xs \<longrightarrow> 0 \<le> xs ! i \<and> xs ! i \<le> 8)"

definition small_lists :: "world \<Rightarrow> bool" where
  "small_lists w \<longleftrightarrow>
     (\<forall>c \<in> set (combinations w). small_digits (heap w c))
     \<and> (\<forall>p b. self_balanced (objects w p) = Some b \<longrightarrow> (\<forall>a \<in> set b. small_digits (heap w a)))"

text \<open>
  The draws of one run: the first picks element 40 of the fair list, the \<open>n\<close>-th padding
  digit is \<open>n\<close>.
\<close>

definition draws40 :: "nat \<Rightarrow> nat" where
  "draws40 k = (if k = 0 then 40 else k)"

text \<open>The check digit in the words of the specification, for the comparison of claim C1.\<close>

definition weighted_sum :: "int list \<Rightarrow> int" where
  "weighted_sum base = (\<Sum>i<8. (9 - int i) * base ! i)"

definition eval_checksum_spec :: "int list \<Rightarrow> int" where
  "eval_checksum_spec base = (let a = weighted_sum base mod 11 in if a < 2 then 0 else 11 - a)"

section \<open>The check digit\<close>

lemma foldl_ruler_enumerate:
  "foldl ruler a (enumerate n xs) = a + (\<Sum>i<length xs. (9 - int (n + i)) * xs ! i)"
proof (induction xs rule: rev_induct)
  case Nil
  show ?case by simp
next
  case (snoc x xs)
  have "foldl ruler a (enumerate n (xs @ [x])) = ruler (foldl ruler a (enumerate n xs)) (n + length xs, x)"
    by (simp add: enumerate_append_eq)
  also have "\<dots> = a + (\<Sum>i<length xs. (9 - int (n + i)) * xs ! i) + (9 - int (n + length xs)) * x"
    unfolding snoc.IH by (simp add: ruler_def)
  finally show ?case
    by (simp add: nth_append)
qed

lemma static_eval_sum_range: "0 \<le> static_eval_sum xs \<and> static_eval_sum xs \<le> 9"
  unfolding static_eval_sum_def Let_def
  by (simp; linarith)

text \<open>
  Claim C1. For every 8-digit base, \<open>_eval_sum\<close> computes what the specification describes:
  with \<open>a\<close> the sum of \<open>(9 - i) * base[i]\<close> over \<open>i\<close> in 0..7, modulo 11, the result is 0 when
  \<open>a < 2\<close> and \<open>11 - a\<close> otherwise. For the base 12345678 the weighted sum is 156, which is 2
  modulo 11, and the check digit is 9.
\<close>

theorem static_eval_sum_spec:
  assumes "length base = 8"
  shows "static_eval_sum base = eval_checksum_spec base
       \<and> weighted_sum [1, 2, 3, 4, 5, 6, 7, 8] = 156
       \<and> (156 :: int) mod 11 = 2
       \<and> static_eval_sum [1, 2, 3, 4, 5, 6, 7, 8] = 9"
proof -
  have "foldl ruler 0 (enumerate 0 (take BASE_LENGTH base)) = weighted_sum base"
    using assms by (simp add: foldl_ruler_enumerate BASE_LENGTH_def weighted_sum_def)
  then have a: "static_eval_sum base = eval_checksum_spec base"
    by (simp add: static_eval_sum_def eval_checksum_spec_def)
  have b: "weighted_sum [1, 2, 3, 4, 5, 6, 7, 8] = 156"
    by (simp add: weighted_sum_def lessThan_nat_numeral lessThan_Suc)
  have c: "static_eval_sum [1, 2, 3, 4, 5, 6, 7, 8] = 9"
    by (simp add: static_eval_sum_def BASE_LENGTH_def enumerate_eq_zip upt_rec ruler_def)
  from a b c show ?thesis by simp
qed

theorem static_eval_sum_spec_witness:
  "length [5, 0, 0, 0, 0, 0, 0, 1 :: int] = 8
   \<and> static_eval_sum [5, 0, 0, 0, 0, 0, 0, 1] = eval_checksum_spec [5, 0, 0, 0, 0, 0, 0, 1]
   \<and> eval_checksum_spec [5, 0, 0, 0, 0, 0, 0, 1] = 8"
proof -
  have "eval_checksum_spec [5, 0, 0, 0, 0, 0, 0, 1] = 8"
    by (simp add: eval_checksum_spec_def weighted_sum_def lessThan_nat_numeral lessThan_Suc)
  then show ?thesis
    using static_eval_sum_spec [of "[5, 0, 0, 0, 0, 0, 0, 1]"] by simp
qed

section \<open>Strings of digits\<close>

lemma str_int_digit: "0 \<le> d \<Longrightarrow> d < 10 \<Longrightarrow> str_int d = [digit_char (nat d)]"
  by (simp add: str_int_def str_nat.simps)

lemma int_of_digit_char:
  assumes "n < 10"
  shows "int_of_char (digit_char n) = Inr (int n)"
proof -
  from assms have "n \<in> {0, 1, 2, 3, 4, 5, 6, 7, 8, 9}" by auto
  then show ?thesis
    by (auto simp: int_of_char_def digit_char_def)
qed

lemma ints_of_Nif_str:
  "\<forall>d \<in> set nif. 0 \<le> d \<and> d \<le> 9 \<Longrightarrow> ints_of_str (Nif_str nif) = Inr nif"
proof (induction nif)
  case Nil
  show ?case by (simp add: Nif_str_def)
next
  case (Cons d ds)
  then have d: "0 \<le> d" "d < 10" and ih: "ints_of_str (Nif_str ds) = Inr ds"
    by (auto simp: Nif_str_def)
  have "int_of_char (digit_char (nat d)) = Inr d"
    using d int_of_digit_char [of "nat d"] by simp
  with ih d show ?case
    by (simp add: Nif_str_def str_int_digit)
qed

lemma startswith_append: "startswith (p @ s) p"
  by (induction p) auto

lemma foldl_validator:
  "foldl (validator nif) b cat
     \<longleftrightarrow> b \<or> (\<exists>y \<in> set cat. startswith (Nif_str nif) (concat (map str_int y)))"
  by (induction cat arbitrary: b) (auto simp: validator_def)

section \<open>Assignment of digits\<close>




lemma list_setitem_length: "list_setitem xs i v = Inr l \<Longrightarrow> length l = length xs"
  by (auto simp: list_setitem_def position_def split: if_splits)

lemma list_setslice_in_place:
  assumes "s \<le> e" and "e \<le> length xs" and "length vs = e - s"
  shows "list_setslice xs \<lparr>start = Some (int s), stop = Some (int e), step = None\<rparr> vs
           = Inr (take s xs @ vs @ drop e xs)"
    and "length (take s xs @ vs @ drop e xs) = length xs"
  using assms by (auto simp: list_setslice_def slice_indices_def clamp_bound_def max_def)

lemma fix_sum_consistent:
  assumes "8 \<le> length l"
  shows "length (fix_sum l) = 9 \<and> take 8 (fix_sum l) = take 8 l
         \<and> fix_sum l ! 8 = static_eval_sum (take 8 (fix_sum l))"
  using assms by (simp add: fix_sum_def set_sum_digit_def eval_sum_def BASE_LENGTH_def nth_append)

lemma setitem_after_assign:
  assumes "list_assign nif asg = Inr l" and "setitem nif asg = Inr nif'"
  shows "nif' = fix_sum l"
  using assms by (cases asg) (auto split: option.splits if_splits)

lemma setitem_index_in_place:
  assumes "length nif = 9" and "- 9 \<le> i" and "i < 9"
  shows "\<exists>l. list_setitem nif i v = Inr l \<and> length l = 9
           \<and> setitem nif (AtIndex i v) = Inr (fix_sum l)
           \<and> length (fix_sum l) = 9
           \<and> fix_sum l ! 8 = static_eval_sum (take 8 (fix_sum l))"
proof -
  have "position nif i \<noteq> None"
    using assms by (simp add: position_def)
  then obtain j where "position nif i = Some j"
    by blast
  then have l: "list_setitem nif i v = Inr (nif[j := v])"
    by (simp add: list_setitem_def)
  have "8 \<le> length (nif[j := v])" using assms(1) by simp
  from fix_sum_consistent [OF this] l assms(1) show ?thesis by simp
qed

lemma setitem_range_in_place:
  assumes "length nif = 9" and "s \<le> e" and "e \<le> 8" and "s < 8" and "length vs = e - s"
  shows "setitem nif (AtSlice \<lparr>start = Some (int s), stop = Some (int e), step = None\<rparr> vs)
           = Inr (fix_sum (take s nif @ vs @ drop e nif))
         \<and> length (fix_sum (take s nif @ vs @ drop e nif)) = 9
         \<and> fix_sum (take s nif @ vs @ drop e nif) ! 8
             = static_eval_sum (take 8 (fix_sum (take s nif @ vs @ drop e nif)))"
proof -
  have e: "e \<le> length nif" using assms(1,3) by simp
  note p = list_setslice_in_place [OF assms(2) e assms(5)]
  have "8 \<le> length (take s nif @ vs @ drop e nif)" using p(2) assms(1) by simp
  from fix_sum_consistent [OF this] p(1) assms(4) show ?thesis
    by (simp add: BASE_LENGTH_def)
qed




text \<open>
  Claim C7, as amended. When \<open>__setitem__\<close> raises nothing and the assignment
  \<open>self._nif[index] = item\<close> leaves a list \<open>l\<close> of at least 8 digits, the number ends
  with 9 digits, its first 8 are the first 8 of \<open>l\<close> (the updated base), and the ninth is
  the check digit of that base. Every assignment that replaces digits of a 9-digit number
  one for one is such an assignment (\<open>setitem_index_in_place\<close>,
  \<open>setitem_range_in_place\<close>).
\<close>

theorem setitem_fixes_sum_digit:
  assumes "list_assign nif asg = Inr l"
    and "setitem nif asg = Inr nif'"
    and "8 \<le> length l"
  shows "length nif' = 9 \<and> take 8 nif' = take 8 l \<and> nif' ! 8 = static_eval_sum (take 8 nif')"
proof -
  from assms(1,2) have "nif' = fix_sum l"
    by (rule setitem_after_assign)
  with fix_sum_consistent [OF assms(3)] show ?thesis
    by simp
qed

theorem setitem_fixes_sum_digit_witness:
  "list_assign [1, 2, 3, 4, 5, 6, 7, 8, 9]
     (AtSlice \<lparr>start = Some 0, stop = Some 2, step = None\<rparr> [5, 0]) = Inr [5, 0, 3, 4, 5, 6, 7, 8, 9]
   \<and> setitem [1, 2, 3, 4, 5, 6, 7, 8, 9]
     (AtSlice \<lparr>start = Some 0, stop = Some 2, step = None\<rparr> [5, 0]) = Inr [5, 0, 3, 4, 5, 6, 7, 8, 0]
   \<and> [5, 0, 3, 4, 5, 6, 7, 8, 0] ! 8 = static_eval_sum (take 8 [5, 0, 3, 4, 5, 6, 7, 8, 0 :: int])"
proof -
  have a: "list_assign [1, 2, 3, 4, 5, 6, 7, 8, 9]
     (AtSlice \<lparr>start = Some 0, stop = Some 2, step = None\<rparr> [5, 0]) = Inr [5, 0, 3, 4, 5, 6, 7, 8, 9]"
    by (simp add: list_setslice_def slice_indices_def clamp_bound_def)
  have b: "setitem [1, 2, 3, 4, 5, 6, 7, 8, 9]
     (AtSlice \<lparr>start = Some 0, stop = Some 2, step = None\<rparr> [5, 0]) = Inr [5, 0, 3, 4, 5, 6, 7, 8, 0]"
    by (simp add: list_setslice_def slice_indices_def clamp_bound_def fix_sum_def set_sum_digit_def
        eval_sum_def static_eval_sum_def BASE_LENGTH_def enumerate_eq_zip upt_rec ruler_def)
  from setitem_fixes_sum_digit [OF a b] a b show ?thesis
    by simp
qed

text \<open>
  The claim as the specification states it fails for a slice assignment that removes
  digits: \<open>n[0:8] = [1, 2, 3]\<close> on 123456789 leaves the five digits 1, 2, 3, 9, 0, and
  there is no ninth digit to read.
\<close>

theorem setitem_shorter_counterexample:
  "setitem [1, 2, 3, 4, 5, 6, 7, 8, 9]
     (AtSlice \<lparr>start = Some 0, stop = Some 8, step = None\<rparr> [1, 2, 3]) = Inr [1, 2, 3, 9, 0]
   \<and> get_sum_digit [1, 2, 3, 9, 0] = Inl IndexError"
  by (simp add: list_setslice_def slice_indices_def clamp_bound_def fix_sum_def set_sum_digit_def
      eval_sum_def static_eval_sum_def get_sum_digit_def BASE_LENGTH_def enumerate_eq_zip upt_rec
      ruler_def)

section \<open>The number 99999999\<close>

lemma Nif_str_nines: "Nif_str ([9, 9, 9, 9, 9, 9, 9, 9] @ [d]) = ''99999999'' @ str_int d"
  by (simp add: Nif_str_def str_int_digit digit_char_def)

lemma prefix_rule_nines: "foldl (validator ([9, 9, 9, 9, 9, 9, 9, 9] @ [d])) False COMBINATIONS"
  unfolding validator_def Nif_str_nines COMBINATIONS_def
  by (simp add: str_int_digit digit_char_def)

lemma eval_sum_nines: "eval_sum ([9, 9, 9, 9, 9, 9, 9, 9] @ [d]) = 0"
  by (simp add: eval_sum_def static_eval_sum_def BASE_LENGTH_def enumerate_eq_zip upt_rec ruler_def)

text \<open>
  Claim C5, as amended. The base 99999999 starts with the catalogue entry 9,9, so the prefix
  rule holds for it; its check digit is 0. With the catalogue as the class body writes it,
  \<open>is_valid\<close> on 99999999d is therefore true exactly for \<open>d = 0\<close>: the string
  \<open>999999999\<close> built with fill disabled is invalid because its ninth digit is not the
  check digit, and 999999990 is valid.
\<close>

theorem all_nines_valid_iff:
  "(is_valid COMBINATIONS ([9, 9, 9, 9, 9, 9, 9, 9] @ [d]) \<longleftrightarrow> d = 0)
   \<and> foldl (validator ([9, 9, 9, 9, 9, 9, 9, 9] @ [d])) False COMBINATIONS
   \<and> init_str draws ''999999999'' False = Inr [9, 9, 9, 9, 9, 9, 9, 9, 9]
   \<and> \<not> is_valid COMBINATIONS [9, 9, 9, 9, 9, 9, 9, 9, 9]"
proof -
  have a: "is_valid COMBINATIONS ([9, 9, 9, 9, 9, 9, 9, 9] @ [d]) \<longleftrightarrow> d = 0" for d
    using prefix_rule_nines [of d] eval_sum_nines [of d]
    by (simp add: is_valid_def BASE_LENGTH_def)
  have b: "init_str draws ''999999999'' False = Inr [9, 9, 9, 9, 9, 9, 9, 9, 9]"
    by (simp add: init_str_def int_of_char_def)
  from a [of d] a [of 9] b prefix_rule_nines [of d] show ?thesis
    by simp
qed

theorem all_nines_valid_iff_witness:
  "\<not> is_valid COMBINATIONS [9, 9, 9, 9, 9, 9, 9, 9, 4]
   \<and> init_str (\<lambda>k. k) ''999999999'' False = Inr [9, 9, 9, 9, 9, 9, 9, 9, 9]"
  using all_nines_valid_iff [of 4 "\<lambda>k. k"] by simp

text \<open>
  The claim as the specification states it fails for the check digit 0: 999999990 passes
  all three rules.
\<close>

theorem all_nines_counterexample:
  "is_valid COMBINATIONS [9, 9, 9, 9, 9, 9, 9, 9, 0]"
  using prefix_rule_nines [of 0] eval_sum_nines [of 0]
  by (simp add: is_valid_def BASE_LENGTH_def)

section \<open>New lists and \<open>_fair_combinations\<close>\<close>

lemma extends_refl: "extends w w"
  by (simp add: extends_def)

lemma extends_trans: "extends w w1 \<Longrightarrow> extends w1 w2 \<Longrightarrow> extends w w2"
  by (auto simp: extends_def)

lemma new_list_extends: "new_list xs w = (a, w1) \<Longrightarrow> extends w w1 \<and> a = fresh w \<and> fresh w1 = Suc (fresh w) \<and> heap w1 a = xs"
  by (auto simp: new_list_def extends_def)

lemma new_lists_props:
  "new_lists n xs w = (as, w') \<Longrightarrow>
     extends w w' \<and> as = [fresh w..<fresh w + n] \<and> fresh w' = fresh w + n
     \<and> (\<forall>a \<in> set as. heap w' a = xs)"
proof (induction n arbitrary: w as w')
  case 0
  then show ?case by (simp add: extends_refl)
next
  case (Suc n)
  obtain a w1 where nl: "new_list xs w = (a, w1)" by force
  obtain bs w2 where rec: "new_lists n xs w1 = (bs, w2)" by force
  from Suc.prems nl rec have eq: "as = a # bs" "w' = w2" by auto
  note p1 = new_list_extends [OF nl]
  note p2 = Suc.IH [OF rec]
  have "extends w w'" using p1 p2 eq extends_trans by blast
  moreover have "as = [fresh w..<fresh w + Suc n]"
    using p1 p2 eq by (simp add: upt_conv_Cons)
  moreover have "fresh w' = fresh w + Suc n" using p1 p2 eq by simp
  moreover have "\<forall>b \<in> set as. heap w' b = xs"
  proof
    fix b assume "b \<in> set as"
    then consider "b = a" | "b \<in> set bs" using eq by auto
    then show "heap w' b = xs"
    proof cases
      case 1
      then have "b < fresh w1" using p1 by simp
      then have "heap w2 b = heap w1 b" using p2 by (simp add: extends_def)
      then show ?thesis using p1 1 eq by auto
    next
      case 2
      then show ?thesis using p2 eq by simp
    qed
  qed
  ultimately show ?case by blast
qed


lemma gen_props:
  assumes "gen c w = (ys, w1)"
  shows "extends w w1"
    and "length (heap w c) = 1 \<Longrightarrow>
           ys = [fresh w..<fresh w + 10] \<and> fresh w1 = fresh w + 10
           \<and> (\<forall>a \<in> set ys. heap w1 a = [heap w c ! 0])"
    and "length (heap w c) \<noteq> 1 \<Longrightarrow> ys = [c] \<and> w1 = w"
  using assms new_lists_props [of 10 "[heap w c ! 0]" w ys w1]
  by (auto simp: gen_def extends_refl split: if_splits)

lemma norm_gen_props:
  "norm_gen cs w = (bal, w') \<Longrightarrow> \<forall>c \<in> set cs. c < fresh w \<Longrightarrow>
     extends w w'
     \<and> map (heap w') bal = concat (map (\<lambda>c. expand (heap w c)) cs)
     \<and> (\<forall>a \<in> set bal. a < fresh w'
           \<and> (a \<in> set cs \<and> length (heap w a) \<noteq> 1
               \<or> fresh w \<le> a \<and> (\<exists>c \<in> set cs. heap w c = [heap w c ! 0] \<and> heap w' a = heap w c)))"
proof (induction cs arbitrary: w bal w')
  case Nil
  then show ?case by (simp add: extends_refl)
next
  case (Cons c cs)
  obtain ys w1 where g: "gen c w = (ys, w1)" by force
  obtain zs w2 where r: "norm_gen cs w1 = (zs, w2)" by force
  from Cons.prems(1) g r have eq: "bal = ys @ zs" "w' = w2" by auto
  note e1 = gen_props(1) [OF g]
  have below: "\<forall>c \<in> set cs. c < fresh w1"
    using Cons.prems(2) e1 by (auto simp: extends_def)
  note ih = Cons.IH [OF r below]
  have e2: "extends w1 w2" using ih by simp
  have same1: "heap w1 a = heap w a" if "a < fresh w" for a
    using e1 that by (simp add: extends_def)
  have same2: "heap w2 a = heap w1 a" if "a < fresh w1" for a
    using e2 that by (simp add: extends_def)
  have cw: "c < fresh w" using Cons.prems(2) by simp
  have ext: "extends w w'" using e1 e2 eq extends_trans by blast
  have ys_vals: "map (heap w2) ys = expand (heap w c)"
  proof (cases "length (heap w c) = 1")
    case True
    note p = gen_props(2) [OF g True]
    have "\<forall>a \<in> set ys. heap w2 a = [heap w c ! 0]"
      using p same2 by auto
    then have "map (heap w2) ys = replicate (length ys) [heap w c ! 0]"
      by (simp add: map_replicate_const [symmetric] cong: map_cong)
    then show ?thesis using p True by (simp add: expand_def)
  next
    case False
    note p = gen_props(3) [OF g False]
    then show ?thesis using False same2 [of c] cw e1 by (simp add: expand_def extends_def)
  qed
  have zs_vals: "map (heap w2) zs = concat (map (\<lambda>c. expand (heap w c)) cs)"
  proof -
    have "map (\<lambda>c. expand (heap w1 c)) cs = map (\<lambda>c. expand (heap w c)) cs"
      using Cons.prems(2) same1 by simp
    then have "concat (map (\<lambda>c. expand (heap w1 c)) cs) = concat (map (\<lambda>c. expand (heap w c)) cs)"
      by (rule arg_cong)
    moreover have "map (heap w2) zs = concat (map (\<lambda>c. expand (heap w1 c)) cs)"
      using ih by blast
    ultimately show ?thesis by simp
  qed
  have ys_mem: "a < fresh w' \<and> (a \<in> set (c # cs) \<and> length (heap w a) \<noteq> 1
               \<or> fresh w \<le> a \<and> (\<exists>c' \<in> set (c # cs). heap w c' = [heap w c' ! 0] \<and> heap w' a = heap w c'))"
    if "a \<in> set ys" for a
  proof (cases "length (heap w c) = 1")
    case True
    note p = gen_props(2) [OF g True]
    have a1: "a < fresh w1" "fresh w \<le> a" using p that by auto
    have "heap w2 a = [heap w c ! 0]" using p same2 that a1 by auto
    moreover have "heap w c = [heap w c ! 0]" using True
      by (cases "heap w c") auto
    ultimately show ?thesis using a1 e2 eq by (auto simp: extends_def)
  next
    case False
    note p = gen_props(3) [OF g False]
    then show ?thesis using that False cw ext by (auto simp: extends_def)
  qed
  have zs_mem: "a < fresh w' \<and> (a \<in> set (c # cs) \<and> length (heap w a) \<noteq> 1
               \<or> fresh w \<le> a \<and> (\<exists>c' \<in> set (c # cs). heap w c' = [heap w c' ! 0] \<and> heap w' a = heap w c'))"
    if "a \<in> set zs" for a
  proof -
    from ih that have a1: "a < fresh w2" and
      d: "a \<in> set cs \<and> length (heap w1 a) \<noteq> 1
               \<or> fresh w1 \<le> a \<and> (\<exists>c \<in> set cs. heap w1 c = [heap w1 c ! 0] \<and> heap w2 a = heap w1 c)"
      by auto
    from d show ?thesis
    proof
      assume "a \<in> set cs \<and> length (heap w1 a) \<noteq> 1"
      then show ?thesis using a1 eq same1 Cons.prems(2) by auto
    next
      assume "fresh w1 \<le> a \<and> (\<exists>c \<in> set cs. heap w1 c = [heap w1 c ! 0] \<and> heap w2 a = heap w1 c)"
      then obtain c' where "fresh w1 \<le> a" "c' \<in> set cs" "heap w1 c' = [heap w1 c' ! 0]" "heap w2 a = heap w1 c'"
        by blast
      moreover have "heap w1 c' = heap w c'" using same1 Cons.prems(2) \<open>c' \<in> set cs\<close> by simp
      moreover have "fresh w \<le> fresh w1" using e1 by (simp add: extends_def)
      ultimately show ?thesis using a1 eq by auto
    qed
  qed
  show ?case
    using ext ys_vals zs_vals ys_mem zs_mem eq by auto
qed

section \<open>\<open>generate\<close> keeps the invariant and returns a valid number\<close>

lemma fair_combinations_props:
  assumes "fair_combinations w = (comb, w0)" and "consistent w"
  shows "extends w w0" and "balanced_ok w0 comb"
    and "map (heap w0) comb = concat (map (\<lambda>c. expand (heap w c)) (combinations w))"
    and "\<forall>a \<in> set comb. a \<in> set (combinations w) \<or> fresh w \<le> a"
proof -
  let ?cs = "combinations w"
  from assms(2) have below: "\<forall>c \<in> set ?cs. c < fresh w" and ne: "?cs \<noteq> []"
    by (auto simp: consistent_def)
  from assms(1) have ng: "norm_gen ?cs w = (comb, w0)"
    by (simp add: fair_combinations_def)
  note p = norm_gen_props [OF ng below]
  from p show ext: "extends w w0" by simp
  from p show vals: "map (heap w0) comb = concat (map (\<lambda>c. expand (heap w c)) ?cs)" by simp
  from p show "\<forall>a \<in> set comb. a \<in> set (combinations w) \<or> fresh w \<le> a" by blast
  have same: "heap w0 a = heap w a" if "a < fresh w" for a
    using ext that by (simp add: extends_def)
  have cs0: "combinations w0 = ?cs" using ext by (simp add: extends_def)
  have "concat (map (\<lambda>c. expand (heap w c)) ?cs) \<noteq> []"
    using ne by (cases ?cs) (auto simp: expand_def)
  with vals have "comb \<noteq> []" by auto
  moreover have "a < fresh w0 \<and>
        (a \<in> set (combinations w0) \<and> length (heap w0 a) \<noteq> 1
         \<or> a \<notin> set (combinations w0) \<and> heap w0 a \<noteq> []
            \<and> (\<exists>c \<in> set (combinations w0). heap w0 c = [hd (heap w0 a)]))"
    if "a \<in> set comb" for a
  proof -
    from p that have a1: "a < fresh w0" and
      d: "a \<in> set ?cs \<and> length (heap w a) \<noteq> 1
               \<or> fresh w \<le> a \<and> (\<exists>c \<in> set ?cs. heap w c = [heap w c ! 0] \<and> heap w0 a = heap w c)"
      by auto
    from d show ?thesis
    proof
      assume "a \<in> set ?cs \<and> length (heap w a) \<noteq> 1"
      then show ?thesis using a1 cs0 same below by auto
    next
      assume "fresh w \<le> a \<and> (\<exists>c \<in> set ?cs. heap w c = [heap w c ! 0] \<and> heap w0 a = heap w c)"
      then obtain c where c: "fresh w \<le> a" "c \<in> set ?cs" "heap w c = [heap w c ! 0]" "heap w0 a = heap w c"
        by blast
      then have "a \<notin> set ?cs" using below by auto
      moreover have "heap w0 a \<noteq> []" using c by auto
      moreover have "heap w0 c = [hd (heap w0 a)]"
      proof -
        obtain d where d: "heap w c = [d]" using c(3) by metis
        have "heap w0 c = heap w c" using same [of c] below c(2) by simp
        with d c(4) show ?thesis by simp
      qed
      ultimately show ?thesis using a1 cs0 c by auto
    qed
  qed
  ultimately show "balanced_ok w0 comb"
    by (simp add: balanced_ok_def)
qed

lemma balanced_ok_extends:
  assumes "balanced_ok w b" and "extends w w0" and "\<forall>c \<in> set (combinations w). c < fresh w"
  shows "balanced_ok w0 b"
proof -
  have same: "heap w0 a = heap w a" if "a < fresh w" for a
    using assms(2) that by (simp add: extends_def)
  have cs0: "combinations w0 = combinations w" and fr: "fresh w \<le> fresh w0"
    using assms(2) by (simp_all add: extends_def)
  show ?thesis
    unfolding balanced_ok_def
  proof (intro conjI ballI)
    show "b \<noteq> []" using assms(1) by (simp add: balanced_ok_def)
  next
    fix a assume a: "a \<in> set b"
    with assms(1) have a1: "a < fresh w" and
      d: "a \<in> set (combinations w) \<and> length (heap w a) \<noteq> 1
         \<or> a \<notin> set (combinations w) \<and> heap w a \<noteq> []
            \<and> (\<exists>c \<in> set (combinations w). heap w c = [hd (heap w a)])"
      by (auto simp: balanced_ok_def)
    show "a < fresh w0" using a1 fr by simp
    from d show "a \<in> set (combinations w0) \<and> length (heap w0 a) \<noteq> 1
         \<or> a \<notin> set (combinations w0) \<and> heap w0 a \<noteq> []
            \<and> (\<exists>c \<in> set (combinations w0). heap w0 c = [hd (heap w0 a)])"
      using same a1 cs0 assms(3) by auto
  qed
qed


lemma static_eval_sum_take: "static_eval_sum (take BASE_LENGTH xs) = static_eval_sum xs"
  by (simp add: static_eval_sum_def)

lemma Nif_str_Cons: "Nif_str (d # ds) = str_int d @ Nif_str ds"
  by (simp add: Nif_str_def)

lemma startswith_refl: "startswith s s"
  using startswith_append [of s "[]"] by simp

lemma generate_cached:
  assumes cons: "consistent w" and cache: "self_balanced (objects w p) = Some comb"
  shows "\<exists>w'. generate draws w p = (w', None) \<and> consistent w' \<and> is_valid_at w' p = Inr True"
proof -
  from cons cache have ok: "balanced_ok w comb"
    by (auto simp: consistent_def)
  then have ne: "comb \<noteq> []" by (simp add: balanced_ok_def)
  define a where "a = comb ! nat (rand (length comb) (draws 0))"
  define nif1 where "nif1 = heap w a @ map (\<lambda>n. rand 9 (draws (Suc n))) [0..<BASE_LENGTH - length (heap w a)]"
  define nif2 where "nif2 = take BASE_LENGTH nif1 @ [static_eval_sum nif1]"
  define l where "l = fresh w"
  define w' where "w' = fst (generate draws w p)"
  have gen: "generate draws w p = (w', None)"
    using ne cache unfolding w'_def
    by (simp add: generate_def Let_def new_list_def)
  have heap': "heap w' = (heap w)(a := nif2, l := nif2)"
    and fresh': "fresh w' = Suc (fresh w)"
    and combs': "combinations w' = combinations w"
    and class': "class_nif w' = class_nif w"
    and nif': "self_nif (objects w' q) = (if q = p then ListAt l else self_nif (objects w q))"
    and bal': "self_balanced (objects w' q) = self_balanced (objects w q)" for q
    using ne cache unfolding w'_def a_def nif1_def nif2_def l_def
    by (simp_all add: generate_def Let_def new_list_def)
  have a_in: "a \<in> set comb"
    using ne unfolding a_def rand_def by simp
  with ok have a_lt: "a < fresh w" and
    a_kind: "a \<in> set (combinations w) \<and> length (heap w a) \<noteq> 1
         \<or> a \<notin> set (combinations w) \<and> heap w a \<noteq> []
            \<and> (\<exists>c \<in> set (combinations w). heap w c = [hd (heap w a)])"
    by (auto simp: balanced_ok_def)
  have a_l: "a \<noteq> l" using a_lt l_def by simp
  have len1: "8 \<le> length nif1" by (simp add: nif1_def BASE_LENGTH_def)
  then have len2: "length nif2 = 9" by (simp add: nif2_def BASE_LENGTH_def)
  have hd2: "nif2 \<noteq> [] \<and> hd nif2 = hd (heap w a)" if "heap w a \<noteq> []"
    using that by (cases "heap w a") (simp_all add: nif2_def nif1_def BASE_LENGTH_def)
  have below: "\<forall>c \<in> set (combinations w). c < fresh w"
    using cons by (simp add: consistent_def)
  have heap_a: "heap w' a = nif2" and heap_l: "heap w' l = nif2"
    using a_l by (simp_all add: heap')
  have heap_other: "heap w' x = heap w x" if "x \<noteq> a" "x \<noteq> l" for x
    using that by (simp add: heap')

  text \<open>The three rules on the new number.\<close>
  have sum: "nif2 ! BASE_LENGTH = eval_sum nif2"
    using len1 by (simp add: nif2_def eval_sum_def nth_append BASE_LENGTH_def static_eval_sum_take [unfolded BASE_LENGTH_def])
  have prefix: "\<exists>y \<in> set (map (heap w') (combinations w')). startswith (Nif_str nif2) (concat (map str_int y))"
  proof -
    from a_kind show ?thesis
    proof
      assume "a \<in> set (combinations w) \<and> length (heap w a) \<noteq> 1"
      then have "heap w' a \<in> set (map (heap w') (combinations w'))"
        by (simp add: combs')
      moreover have "startswith (Nif_str nif2) (concat (map str_int (heap w' a)))"
        using startswith_refl by (simp add: heap_a Nif_str_def)
      ultimately show ?thesis by blast
    next
      assume k: "a \<notin> set (combinations w) \<and> heap w a \<noteq> []
            \<and> (\<exists>c \<in> set (combinations w). heap w c = [hd (heap w a)])"
      then obtain c where c: "c \<in> set (combinations w)" "heap w c = [hd (heap w a)]"
        by blast
      have "c \<noteq> a" "c \<noteq> l" using c k below l_def by auto
      then have hc: "heap w' c = [hd nif2]" using heap_other c hd2 k by simp
      obtain d ds where nd: "nif2 = d # ds" using hd2 k by (cases nif2) auto
      have "startswith (Nif_str nif2) (concat (map str_int (heap w' c)))"
        using startswith_append [of "str_int d" "Nif_str ds"]
        by (simp add: hc nd Nif_str_Cons)
      moreover have "heap w' c \<in> set (map (heap w') (combinations w'))"
        using c by (simp add: combs')
      ultimately show ?thesis by blast
    qed
  qed
  have valid: "is_valid_at w' p = Inr True"
    using sum prefix len2
    by (simp add: is_valid_at_def nif' heap_l is_valid_def foldl_validator BASE_LENGTH_def)

  text \<open>The invariant after the call.\<close>
  have ok': "balanced_ok w' b" if "balanced_ok w b" for b
    unfolding balanced_ok_def
  proof (intro conjI ballI)
    show "b \<noteq> []" using that by (simp add: balanced_ok_def)
  next
    fix x assume "x \<in> set b"
    with that have x_lt: "x < fresh w" and
      x_kind: "x \<in> set (combinations w) \<and> length (heap w x) \<noteq> 1
         \<or> x \<notin> set (combinations w) \<and> heap w x \<noteq> []
            \<and> (\<exists>c \<in> set (combinations w). heap w c = [hd (heap w x)])"
      by (auto simp: balanced_ok_def)
    show "x < fresh w'" using x_lt fresh' by simp
    have x_l: "x \<noteq> l" using x_lt l_def by simp
    from x_kind show "x \<in> set (combinations w') \<and> length (heap w' x) \<noteq> 1
         \<or> x \<notin> set (combinations w') \<and> heap w' x \<noteq> []
            \<and> (\<exists>c \<in> set (combinations w'). heap w' c = [hd (heap w' x)])"
    proof
      assume k: "x \<in> set (combinations w) \<and> length (heap w x) \<noteq> 1"
      have "length (heap w' x) \<noteq> 1"
        using k x_l len2 heap_a heap_other [of x] by (cases "x = a") auto
      with k show ?thesis by (simp add: combs')
    next
      assume k: "x \<notin> set (combinations w) \<and> heap w x \<noteq> []
            \<and> (\<exists>c \<in> set (combinations w). heap w c = [hd (heap w x)])"
      then obtain c where c: "c \<in> set (combinations w)" "heap w c = [hd (heap w x)]"
        by blast
      have c_l: "c \<noteq> l" using c below l_def by auto
      have c_a: "c \<noteq> a"
      proof
        assume "c = a"
        with c a_kind show False by auto
      qed
      have hc: "heap w' c = heap w c" using heap_other c_a c_l by simp
      have "heap w' x \<noteq> [] \<and> hd (heap w' x) = hd (heap w x)"
        using k x_l hd2 heap_a heap_other [of x] by (cases "x = a") auto
      with k c hc show ?thesis by (auto simp: combs')
    qed
  qed
  have priv': "private_list w' x" if "self_nif (objects w' q) = ListAt x" for q x
  proof (cases "q = p")
    case True
    with that have "x = l" by (simp add: nif')
    moreover have "l \<notin> set b" if "self_balanced (objects w r) = Some b" for r b
    proof -
      from cons that have "balanced_ok w b" by (auto simp: consistent_def)
      then show ?thesis by (auto simp: balanced_ok_def l_def)
    qed
    ultimately show ?thesis
      using below by (auto simp: private_list_def fresh' combs' bal' l_def)
  next
    case False
    with that have "self_nif (objects w q) = ListAt x" by (simp add: nif')
    with cons have "private_list w x" by (auto simp: consistent_def)
    then show ?thesis
      by (auto simp: private_list_def fresh' combs' bal')
  qed
  have "consistent w'"
    unfolding consistent_def
  proof (intro conjI allI impI)
    show "combinations w' \<noteq> []" using cons by (simp add: consistent_def combs')
    show "\<forall>c \<in> set (combinations w'). c < fresh w'"
      using below by (auto simp: combs' fresh')
    show "balanced_ok w' b" if "self_balanced (objects w' q) = Some b" for q b
      using that cons ok' by (auto simp: bal' consistent_def)
    show "private_list w' x" if "self_nif (objects w' q) = ListAt x" for q x
      using that by (rule priv')
    show "private_list w' (class_nif w')"
      using cons by (auto simp: consistent_def private_list_def fresh' combs' bal' class')
  qed
  with gen valid show ?thesis by blast
qed


lemma generate_uncached_eq:
  assumes "self_balanced (objects w p) = None" and "fair_combinations w = (comb, w0)"
  shows "generate draws w p
         = generate draws (w0\<lparr>objects := (objects w0)(p := (objects w0 p)\<lparr>self_balanced := Some comb\<rparr>)\<rparr>) p"
  using assms by (simp add: generate_def)

lemma generate_cached_fields:
  assumes "self_balanced (objects w p) = Some comb" and "comb \<noteq> []"
    and "a = comb ! (draws 0 mod length comb)"
    and "nif1 = heap w a @ map (\<lambda>n. rand 9 (draws (Suc n))) [0..<8 - length (heap w a)]"
    and "nif2 = take 8 nif1 @ [static_eval_sum nif1]"
  shows "snd (generate draws w p) = None"
    and "heap (fst (generate draws w p)) = (heap w)(a := nif2, fresh w := nif2)"
    and "combinations (fst (generate draws w p)) = combinations w"
    and "self_nif (objects (fst (generate draws w p)) p) = ListAt (fresh w)"
    and "self_balanced (objects (fst (generate draws w p)) q) = self_balanced (objects w q)"
  using assms
  by (simp_all add: generate_def Let_def new_list_def rand_def BASE_LENGTH_def)

lemma generate_uncached:
  assumes cons: "consistent w" and fc: "fair_combinations w = (comb, w0)"
  shows "consistent (w0\<lparr>objects := (objects w0)(p := (objects w0 p)\<lparr>self_balanced := Some comb\<rparr>)\<rparr>)"
proof -
  define w1 where "w1 = w0\<lparr>objects := (objects w0)(p := (objects w0 p)\<lparr>self_balanced := Some comb\<rparr>)\<rparr>"
  note props = fair_combinations_props [OF fc cons]
  have ext: "extends w w0" by (rule props(1))
  have below: "\<forall>c \<in> set (combinations w). c < fresh w"
    using cons by (simp add: consistent_def)
  have fields: "heap w1 = heap w0" "fresh w1 = fresh w0" "combinations w1 = combinations w"
    "fresh w \<le> fresh w0" "class_nif w1 = class_nif w"
    using ext by (simp_all add: w1_def extends_def)
  have nif1: "self_nif (objects w1 q) = self_nif (objects w q)"
    and bal1: "self_balanced (objects w1 q) = (if q = p then Some comb else self_balanced (objects w q))"
    for q
    using ext by (simp_all add: w1_def extends_def)
  have ok_same: "balanced_ok w1 b" if "balanced_ok w0 b" for b
    using that ext by (simp add: balanced_ok_def fields extends_def)
  have caches: "balanced_ok w1 b" if "self_balanced (objects w1 q) = Some b" for q b
  proof (cases "q = p")
    case True
    with that have "b = comb" by (simp add: bal1)
    then show ?thesis using props(2) ok_same by simp
  next
    case False
    with that have "self_balanced (objects w q) = Some b" by (simp add: bal1)
    with cons have "balanced_ok w b" by (auto simp: consistent_def)
    then show ?thesis using balanced_ok_extends [OF _ ext below] ok_same by blast
  qed
  have priv0: "private_list w1 x" if p0: "private_list w x" for x
  proof -
    from p0 have "x \<notin> set comb" using props(4) by (auto simp: private_list_def)
    with p0 show ?thesis
      using fields by (auto simp: private_list_def bal1)
  qed
  have priv: "private_list w1 x" if "self_nif (objects w1 q) = ListAt x" for q x
    using that cons priv0 by (auto simp: consistent_def nif1)
  have "consistent w1"
    unfolding consistent_def
  proof (intro conjI allI impI)
    show "combinations w1 \<noteq> []" using cons by (simp add: consistent_def fields)
    show "\<forall>c \<in> set (combinations w1). c < fresh w1"
      using below fields by auto
    show "balanced_ok w1 b" if "self_balanced (objects w1 q) = Some b" for q b
      using that by (rule caches)
    show "private_list w1 x" if "self_nif (objects w1 q) = ListAt x" for q x
      using that by (rule priv)
    show "private_list w1 (class_nif w1)"
      using cons priv0 by (simp add: consistent_def fields)
  qed
  then show ?thesis by (simp only: w1_def)
qed

lemma generate_consistent:
  assumes "consistent w"
  shows "\<exists>w'. generate draws w p = (w', None) \<and> consistent w' \<and> is_valid_at w' p = Inr True"
proof (cases "self_balanced (objects w p)")
  case None
  obtain comb w0 where fc: "fair_combinations w = (comb, w0)" by force
  define w1 where "w1 = w0\<lparr>objects := (objects w0)(p := (objects w0 p)\<lparr>self_balanced := Some comb\<rparr>)\<rparr>"
  have "consistent w1" unfolding w1_def using assms fc by (rule generate_uncached)
  moreover have "self_balanced (objects w1 p) = Some comb" by (simp add: w1_def)
  moreover have "generate draws w p = generate draws w1 p"
    unfolding w1_def using None fc by (rule generate_uncached_eq)
  ultimately show ?thesis
    using generate_cached [of w1 p comb draws] by simp
next
  case (Some comb)
  with generate_cached [OF assms, of p comb draws] show ?thesis by simp
qed

lemma consistent_initial: "consistent initial_world"
  by (auto simp: consistent_def initial_world_def private_list_def)

section \<open>Every reachable world satisfies the invariant\<close>

lemma private_writes_refl: "private_writes w w"
  by (simp add: private_writes_def)

lemma private_list_cong:
  "private_writes w w' \<Longrightarrow> private_list w' = private_list w"
  by (auto simp: private_writes_def private_list_def fun_eq_iff)

lemma private_writes_trans:
  "private_writes w w1 \<Longrightarrow> private_writes w1 w2 \<Longrightarrow> private_writes w w2"
  using private_list_cong [of w w1]
  by (auto simp: private_writes_def)

lemma private_writes_heap:
  "private_list w l \<Longrightarrow> private_writes w (w\<lparr>heap := (heap w)(l := xs)\<rparr>)"
  by (auto simp: private_writes_def)

lemma consistent_private_writes:
  assumes cons: "consistent w" and pw: "private_writes w w'"
  shows "consistent w'"
proof -
  have pl: "private_list w' = private_list w" using pw by (rule private_list_cong)
  have f: "fresh w' = fresh w" "objects w' = objects w" "combinations w' = combinations w"
    "class_nif w' = class_nif w"
    using pw by (simp_all add: private_writes_def)
  have same: "heap w' a = heap w a" if "\<not> private_list w a" for a
    using pw that by (simp add: private_writes_def)
  have comb_same: "heap w' c = heap w c" if "c \<in> set (combinations w)" for c
    using that by (intro same) (auto simp: private_list_def)
  have ok: "balanced_ok w' b" if b: "self_balanced (objects w q) = Some b" for q b
  proof -
    from cons b have ok: "balanced_ok w b" by (auto simp: consistent_def)
    have "heap w' a = heap w a" if "a \<in> set b" for a
      using that b by (intro same) (auto simp: private_list_def)
    with ok comb_same show ?thesis
      by (auto simp: balanced_ok_def f)
  qed
  show ?thesis
    using cons ok unfolding consistent_def pl f by blast
qed


lemma store_private:
  "consistent w \<Longrightarrow> (\<forall>l. t = ListAt l \<longrightarrow> private_list w l)
     \<Longrightarrow> private_writes w (fst (store k w t asg))"
  and setitem_at_private:
  "consistent w \<Longrightarrow> private_writes w (fst (setitem_at k w p asg))"
proof (induction k w t asg and k w p asg rule: store_setitem_at.induct)
  case (1 k w l asg)
  then show ?case
    by (auto simp: private_writes_refl private_writes_heap split: sum.splits)
next
  case (2 w q asg)
  show ?case by (simp add: private_writes_refl)
next
  case (3 k w q asg)
  then show ?case by simp
next
  case (4 k w p asg)
  note cons = \<open>consistent w\<close>
  have target: "\<forall>l. self_nif (objects w p) = ListAt l \<longrightarrow> private_list w l"
    using cons by (auto simp: consistent_def)
  show ?case
  proof (cases "guard asg")
    case (Some e)
    then show ?thesis by (simp add: private_writes_refl)
  next
    case None
    obtain w1 r1 where st: "store k w (self_nif (objects w p)) asg = (w1, r1)" by force
    have pw1: "private_writes w w1"
      using "4.IH"(1) [OF None cons target] st by simp
    show ?thesis
    proof (cases r1)
      case (Some e)
      with None st pw1 show ?thesis by simp
    next
      case r1: None
      show ?thesis
      proof (cases "eval_sum_at k w1 p")
        case (Inl e)
        with None st r1 pw1 show ?thesis by simp
      next
        case (Inr v)
        have cons1: "consistent w1" using cons pw1 by (rule consistent_private_writes)
        have target1: "\<forall>l. self_nif (objects w1 p) = ListAt l \<longrightarrow> private_list w1 l"
          using cons1 by (auto simp: consistent_def)
        have "private_writes w1 (fst (store k w1 (self_nif (objects w1 p)) (AtSlice sum_digit_slice [v])))"
          using "4.IH"(2) [OF None st [symmetric] r1 Inr cons1 target1] .
        with pw1 have "private_writes w (fst (store k w1 (self_nif (objects w1 p)) (AtSlice sum_digit_slice [v])))"
          by (rule private_writes_trans)
        with None st r1 Inr show ?thesis by simp
      qed
    qed
  qed
qed

lemma new_object_consistent:
  assumes cons: "consistent w" and no: "new_object obj w = (p, w')"
    and cache: "self_balanced obj = None"
    and target: "\<forall>l. self_nif obj = ListAt l \<longrightarrow> private_list w l"
  shows "consistent w'"
proof -
  have f: "heap w' = heap w" "fresh w' = fresh w" "combinations w' = combinations w"
    "class_nif w' = class_nif w" "objects w' = (objects w)(fresh_object w := obj)"
    using no by (auto simp: new_object_def)
  have pl: "private_list w' l" if "private_list w l" for l
    using that cache by (auto simp: private_list_def f)
  have ok: "balanced_ok w' b" if "balanced_ok w b" for b
    using that by (simp add: balanced_ok_def f)
  show ?thesis
    unfolding consistent_def
  proof (intro conjI allI impI)
    show "combinations w' \<noteq> []" using cons by (simp add: consistent_def f)
    show "\<forall>c \<in> set (combinations w'). c < fresh w'" using cons by (simp add: consistent_def f)
    show "balanced_ok w' b" if "self_balanced (objects w' q) = Some b" for q b
      using that cons cache ok by (auto simp: f consistent_def split: if_splits)
    show "private_list w' l" if "self_nif (objects w' q) = ListAt l" for q l
      using that cons target pl by (auto simp: f consistent_def split: if_splits)
    show "private_list w' (class_nif w')" using cons pl by (simp add: consistent_def f)
  qed
qed

lemma new_list_consistent:
  assumes cons: "consistent w" and nl: "new_list ds w = (l, w')"
  shows "consistent w' \<and> private_list w' l"
proof -
  have f: "heap w' = (heap w)(fresh w := ds)" "fresh w' = Suc (fresh w)" "combinations w' = combinations w"
    "class_nif w' = class_nif w" "objects w' = objects w" "l = fresh w"
    using nl by (auto simp: new_list_def)
  have below: "\<forall>c \<in> set (combinations w). c < fresh w"
    using cons by (simp add: consistent_def)
  have ext: "extends w w'" using nl by (auto simp: extends_def new_list_def)
  have caches: "balanced_ok w b" if "self_balanced (objects w q) = Some b" for q b
    using that cons by (auto simp: consistent_def)
  have pl: "private_list w' x" if "private_list w x" for x
    using that by (auto simp: private_list_def f)
  have "private_list w' l"
    using below caches by (fastforce simp: private_list_def f balanced_ok_def)
  moreover have "consistent w'"
    unfolding consistent_def
  proof (intro conjI allI impI)
    show "combinations w' \<noteq> []" using cons by (simp add: consistent_def f)
    show "\<forall>c \<in> set (combinations w'). c < fresh w'" using below by (auto simp: f)
    show "balanced_ok w' b" if "self_balanced (objects w' q) = Some b" for q b
      using that caches balanced_ok_extends [OF _ ext below] by (auto simp: f)
    show "private_list w' x" if "self_nif (objects w' q) = ListAt x" for q x
      using that cons pl by (auto simp: f consistent_def)
    show "private_list w' (class_nif w')" using cons pl by (simp add: consistent_def f)
  qed
  ultimately show ?thesis by simp
qed

lemma Nif_init_consistent:
  assumes cons: "consistent w" and init: "Nif_init draws num fill w = Inr (p, w')"
    and held: "\<forall>a. num = FromList a \<longrightarrow> private_list w a"
  shows "consistent w'"
proof (cases num)
  case NoArg
  with init have "new_object \<lparr>self_nif = ListAt (class_nif w), self_balanced = None\<rparr> w = (p, w')"
    by (simp add: Nif_init_def)
  then show ?thesis
    by (rule new_object_consistent [OF cons]) (use cons in \<open>auto simp: consistent_def\<close>)
next
  case (FromNif q)
  with init have "new_object \<lparr>self_nif = NifAt q, self_balanced = None\<rparr> w = (p, w')"
    by (simp add: Nif_init_def)
  then show ?thesis
    by (rule new_object_consistent [OF cons]) auto
next
  case (FromList a)
  with init have "new_object \<lparr>self_nif = ListAt (if heap w a = [] then class_nif w else a),
      self_balanced = None\<rparr> w = (p, w')"
    by (simp add: Nif_init_def)
  then show ?thesis
    by (rule new_object_consistent [OF cons]) (use cons held FromList in \<open>auto simp: consistent_def\<close>)
next
  case (FromStr s)
  show ?thesis
  proof (cases "s = []")
    case True
    with init FromStr have "new_object \<lparr>self_nif = ListAt (class_nif w), self_balanced = None\<rparr> w = (p, w')"
      by (simp add: Nif_init_def)
    then show ?thesis
      by (rule new_object_consistent [OF cons]) (use cons in \<open>auto simp: consistent_def\<close>)
  next
    case False
    with init FromStr obtain ds where ds: "init_str draws s fill = Inr ds"
      by (cases "init_str draws s fill") (auto simp: Nif_init_def)
    obtain l w1 where nl: "new_list ds w = (l, w1)" by force
    from init FromStr False ds nl
    have no: "new_object \<lparr>self_nif = ListAt l, self_balanced = None\<rparr> w1 = (p, w')"
      by (simp add: Nif_init_def)
    note c1 = new_list_consistent [OF cons nl]
    from no show ?thesis
      using c1 by (intro new_object_consistent [of w1 _ p w']) auto
  qed
qed

lemma reachable_consistent: "reachable w \<Longrightarrow> consistent w"
proof (induction rule: reachable.induct)
  case loaded
  show ?case by (rule consistent_initial)
next
  case (built w num draws fill p w')
  then show ?case
    by (intro Nif_init_consistent [of w draws num fill p w']) auto
next
  case (built_on_new_list w ds a w1 draws fill p w')
  note c1 = new_list_consistent [OF built_on_new_list.IH built_on_new_list.hyps(2)]
  with built_on_new_list.hyps(3) show ?case
    by (intro Nif_init_consistent [of w1 draws "FromList a" fill p w']) auto
next
  case (built_on_held_list w q a draws fill p w')
  then have "private_list w a" by (auto simp: consistent_def)
  with built_on_held_list show ?case
    by (intro Nif_init_consistent [of w draws "FromList a" fill p w']) auto
next
  case (generated w p draws w' r)
  with generate_consistent [of w draws p] show ?case by auto
next
  case (assigned w p k asg w' r)
  with setitem_at_private [of w k p asg] show ?case
    by (auto intro: consistent_private_writes)
next
  case (sum_fixed w p k w' r)
  have target: "\<forall>l. self_nif (objects w p) = ListAt l \<longrightarrow> private_list w l"
    using sum_fixed.IH by (auto simp: consistent_def)
  have "private_writes w w'"
  proof (cases "eval_sum_at k w p")
    case (Inl e)
    with sum_fixed.hyps show ?thesis by (simp add: fix_sum_at_def private_writes_refl)
  next
    case (Inr v)
    with sum_fixed.hyps store_private [OF sum_fixed.IH target, of k "AtSlice sum_digit_slice [v]"]
    show ?thesis by (simp add: fix_sum_at_def set_sum_digit_at_def)
  qed
  with sum_fixed.IH show ?case by (rule consistent_private_writes)
next
  case (sum_digit_set w p k v w' r)
  have target: "\<forall>l. self_nif (objects w p) = ListAt l \<longrightarrow> private_list w l"
    using sum_digit_set.IH by (auto simp: consistent_def)
  have "private_writes w w'"
    using sum_digit_set.hyps store_private [OF sum_digit_set.IH target, of k "AtSlice sum_digit_slice [v]"]
    by (simp add: set_sum_digit_at_def)
  with sum_digit_set.IH show ?case by (rule consistent_private_writes)
next
  case (list_written w q a xs)
  then have "private_list w a" by (auto simp: consistent_def)
  then have "private_writes w (w\<lparr>heap := (heap w)(a := xs)\<rparr>)"
    by (rule private_writes_heap)
  with list_written.IH show ?case by (rule consistent_private_writes)
qed

text \<open>
  Claim C2. In every world that a run of the program reaches, and for every outcome of the
  random draws, \<open>generate\<close> on an instance raises nothing and \<open>is_valid\<close> on that
  instance, called right after, returns true; the same holds for \<open>Nif.generate_nif()\<close>.
\<close>

theorem generate_is_valid:
  assumes "reachable w"
  shows "(\<exists>w'. generate draws w p = (w', None) \<and> is_valid_at w' p = Inr True)
       \<and> (\<exists>q w'. generate_nif draws w = (q, w', None) \<and> is_valid_at w' q = Inr True)"
proof
  from assms have cons: "consistent w" by (rule reachable_consistent)
  from generate_consistent [OF cons, of draws p]
  show "\<exists>w'. generate draws w p = (w', None) \<and> is_valid_at w' p = Inr True"
    by blast
  obtain q w1 where no: "new_object \<lparr>self_nif = ListAt (class_nif w), self_balanced = None\<rparr> w = (q, w1)"
    by force
  have "consistent w1"
    by (rule new_object_consistent [OF cons no]) (use cons in \<open>auto simp: consistent_def\<close>)
  from generate_consistent [OF this, of draws q] no
  show "\<exists>q w'. generate_nif draws w = (q, w', None) \<and> is_valid_at w' q = Inr True"
    by (auto simp: generate_nif_def)
qed

theorem generate_is_valid_witness:
  "(\<exists>w'. generate (\<lambda>k. 40) initial_world 0 = (w', None) \<and> is_valid_at w' 0 = Inr True)
   \<and> (\<exists>q w'. generate_nif (\<lambda>k. 40) initial_world = (q, w', None) \<and> is_valid_at w' q = Inr True)"
  using generate_is_valid [OF reachable.loaded, of "\<lambda>k. 40" 0] by simp

section \<open>The fair list of the catalogue as written\<close>

lemma initial_catalogue: "map (heap initial_world) (combinations initial_world) = COMBINATIONS"
proof -
  have len: "length COMBINATIONS = 13" by (simp add: COMBINATIONS_def)
  have "map (heap initial_world) (combinations initial_world)
          = map (\<lambda>a. if a < length COMBINATIONS then COMBINATIONS ! a else []) [0..<length COMBINATIONS]"
    unfolding len by (simp add: initial_world_def len)
  also have "\<dots> = map (nth COMBINATIONS) [0..<length COMBINATIONS]"
    by (rule map_cong) simp_all
  finally show ?thesis by (simp only: map_nth)
qed

lemma expand_COMBINATIONS:
  "concat (map expand COMBINATIONS) =
     replicate 10 [1] @ replicate 10 [2] @ replicate 10 [5] @ replicate 10 [6]
     @ [[7, 0], [7, 1], [7, 7], [7, 9]] @ replicate 10 [8] @ [[9, 0], [9, 1], [9, 8], [9, 9]]"
  by (simp add: COMBINATIONS_def expand_def)

text \<open>
  Claim C8. On the catalogue as the class body writes it, \<open>_fair_combinations\<close> returns,
  in catalogue order, ten lists for each of the five one-digit entries 1, 2, 5, 6 and 8 and
  one list for each of the eight two-digit entries: 58 lists in all.
\<close>

theorem fair_combinations_catalogue:
  assumes "map (heap w) (combinations w) = COMBINATIONS"
    and "\<forall>c \<in> set (combinations w). c < fresh w"
    and "fair_combinations w = (bal, w')"
  shows "map (heap w') bal =
           replicate 10 [1] @ replicate 10 [2] @ replicate 10 [5] @ replicate 10 [6]
           @ [[7, 0], [7, 1], [7, 7], [7, 9]] @ replicate 10 [8] @ [[9, 0], [9, 1], [9, 8], [9, 9]]
         \<and> length bal = 58"
proof -
  from assms(3) have ng: "norm_gen (combinations w) w = (bal, w')"
    by (simp add: fair_combinations_def)
  from norm_gen_props [OF ng assms(2)]
  have "map (heap w') bal = concat (map (\<lambda>c. expand (heap w c)) (combinations w))"
    by simp
  also have "\<dots> = concat (map expand (map (heap w) (combinations w)))"
    by (simp add: comp_def)
  also have "\<dots> = concat (map expand COMBINATIONS)"
    by (simp only: assms(1))
  finally have vals: "map (heap w') bal =
           replicate 10 [1] @ replicate 10 [2] @ replicate 10 [5] @ replicate 10 [6]
           @ [[7, 0], [7, 1], [7, 7], [7, 9]] @ replicate 10 [8] @ [[9, 0], [9, 1], [9, 8], [9, 9]]"
    by (simp only: expand_COMBINATIONS)
  have "length bal = length (map (heap w') bal)" by simp
  also have "\<dots> = 58" unfolding vals by simp
  finally show ?thesis using vals by simp
qed

theorem fair_combinations_catalogue_witness:
  "map (heap (snd (fair_combinations initial_world))) (fst (fair_combinations initial_world)) =
           replicate 10 [1] @ replicate 10 [2] @ replicate 10 [5] @ replicate 10 [6]
           @ [[7, 0], [7, 1], [7, 7], [7, 9]] @ replicate 10 [8] @ [[9, 0], [9, 1], [9, 8], [9, 9]]
   \<and> length (fst (fair_combinations initial_world)) = 58"
proof -
  have "\<forall>c \<in> set (combinations initial_world). c < fresh initial_world"
    by (simp add: initial_world_def)
  from fair_combinations_catalogue [OF initial_catalogue this, of "fst (fair_combinations initial_world)"
      "snd (fair_combinations initial_world)"]
  show ?thesis by simp
qed

section \<open>\<open>generate\<close> writes into the catalogue\<close>

lemma catalogue_index:
  assumes "c < 13" and "COMBINATIONS ! c = [7, 0]"
  shows "c = 4"
proof -
  from assms(1) have "c \<in> {..<13}" by simp
  then have "c \<in> {12, 11, 10, 9, 8, 7, 6, 5, 4, 3, 2, 1, 0}"
    by (simp add: lessThan_nat_numeral lessThan_Suc)
  with assms(2) show ?thesis
    by (auto simp: COMBINATIONS_def)
qed

lemma first_generate:
  assumes w: "map (heap w) (combinations w) = COMBINATIONS" "combinations w = [0..<13]" "13 < fresh w"
    and cache: "self_balanced (objects w p) = None"
  shows "snd (generate draws40 w p) = None"
    and "map (heap (fst (generate draws40 w p))) (combinations (fst (generate draws40 w p)))
         = COMBINATIONS[4 := [7, 0, 1, 2, 3, 4, 5, 6, 3]]"
    and "is_valid_at (fst (generate draws40 w p)) p = Inr True"
proof -
  obtain comb w0 where fc: "fair_combinations w = (comb, w0)" by force
  define w1 where "w1 = w0\<lparr>objects := (objects w0)(p := (objects w0 p)\<lparr>self_balanced := Some comb\<rparr>)\<rparr>"
  have below: "\<forall>c \<in> set (combinations w). c < fresh w" using w by auto
  have hw: "heap w c = COMBINATIONS ! c" if "c < 13" for c
  proof -
    have "map (heap w) (combinations w) ! c = heap w c" using that w(2) by simp
    then show ?thesis using w(1) by simp
  qed
  from fc have ng: "norm_gen (combinations w) w = (comb, w0)" by (simp add: fair_combinations_def)
  note props = norm_gen_props [OF ng below]
  have ext: "extends w w0" using props by simp
  have same: "heap w0 c = heap w c" if "c < fresh w" for c
    using ext that by (simp add: extends_def)
  have vals: "map (heap w0) comb = concat (map expand COMBINATIONS)"
  proof -
    have "map (heap w0) comb = concat (map expand (map (heap w) (combinations w)))"
      using props by (simp add: comp_def)
    then show ?thesis by (simp only: w(1))
  qed
  have len: "length comb = 58"
  proof -
    have "length comb = length (map (heap w0) comb)" by simp
    also have "\<dots> = 58" unfolding vals expand_COMBINATIONS by simp
    finally show ?thesis .
  qed
  define a where "a = comb ! 40"
  have a_in: "a \<in> set comb" using len by (simp add: a_def)
  have "map (heap w0) comb ! 40 = [7, 0]"
    unfolding vals expand_COMBINATIONS by (simp add: nth_append)
  then have ha: "heap w0 a = [7, 0]" using len by (simp add: a_def)
  from props a_in have "a \<in> set (combinations w) \<and> length (heap w a) \<noteq> 1
               \<or> fresh w \<le> a \<and> (\<exists>c \<in> set (combinations w). heap w c = [heap w c ! 0] \<and> heap w0 a = heap w c)"
    by blast
  then have "a \<in> set (combinations w)"
  proof
    assume "a \<in> set (combinations w) \<and> length (heap w a) \<noteq> 1"
    then show ?thesis by simp
  next
    assume "fresh w \<le> a \<and> (\<exists>c \<in> set (combinations w). heap w c = [heap w c ! 0] \<and> heap w0 a = heap w c)"
    then obtain c where "heap w c = [heap w c ! 0]" "heap w0 a = heap w c" by blast
    then have "length (heap w0 a) = 1" by (metis length_Cons list.size(3) One_nat_def)
    with ha show ?thesis by simp
  qed
  then have a13: "a < 13" using w(2) by simp
  then have "COMBINATIONS ! a = [7, 0]" using ha same [of a] hw [of a] w(3) by simp
  with a13 have a4: "a = 4" by (rule catalogue_index)
  have f1: "heap w1 = heap w0" "fresh w1 = fresh w0" "combinations w1 = combinations w"
    "self_balanced (objects w1 p) = Some comb"
    using ext by (simp_all add: w1_def extends_def)
  have eq: "generate draws40 w p = generate draws40 w1 p"
    unfolding w1_def using cache fc by (rule generate_uncached_eq)
  have ne: "comb \<noteq> []" using len by auto
  have pick: "4 = comb ! (draws40 0 mod length comb)"
    using a4 by (simp add: len draws40_def a_def)
  have h4: "heap w1 4 = [7, 0]" using ha a4 f1 by simp
  have nif1: "[7, 0, 1, 2, 3, 4, 5, 6] = heap w1 4 @ map (\<lambda>n. rand 9 (draws40 (Suc n))) [0..<8 - length (heap w1 4)]"
    by (simp add: h4 rand_def draws40_def upt_rec)
  have nif2: "[7, 0, 1, 2, 3, 4, 5, 6, 3] = take 8 [7, 0, 1, 2, 3, 4, 5, 6] @ [static_eval_sum [7, 0, 1, 2, 3, 4, 5, 6]]"
    by (simp add: static_eval_sum_def BASE_LENGTH_def enumerate_eq_zip upt_rec ruler_def)
  note g = generate_cached_fields [OF f1(4) ne pick nif1 nif2]
  show "snd (generate draws40 w p) = None" using g(1) eq by simp
  let ?w' = "fst (generate draws40 w p)"
  have hp: "heap ?w' = (heap w1)(4 := [7, 0, 1, 2, 3, 4, 5, 6, 3], fresh w1 := [7, 0, 1, 2, 3, 4, 5, 6, 3])"
    and cp: "combinations ?w' = [0..<13]"
    and np: "self_nif (objects ?w' p) = ListAt (fresh w1)"
    using g eq f1 w(2) by simp_all
  have fr: "13 < fresh w1" using ext w(3) f1 by (simp add: extends_def)
  have "map (heap ?w') [0..<13] = (map (heap w) [0..<13])[4 := [7, 0, 1, 2, 3, 4, 5, 6, 3]]"
  proof (rule nth_equalityI)
    show "length (map (heap ?w') [0..<13]) = length ((map (heap w) [0..<13])[4 := [7, 0, 1, 2, 3, 4, 5, 6, 3]])"
      by simp
  next
    fix i assume "i < length (map (heap ?w') [0..<13])"
    then have i: "i < 13" by simp
    then have "heap w1 i = heap w i" using same [of i] w(3) f1 by simp
    with i fr show "map (heap ?w') [0..<13] ! i = (map (heap w) [0..<13])[4 := [7, 0, 1, 2, 3, 4, 5, 6, 3]] ! i"
      by (auto simp: hp nth_list_update)
  qed
  then show "map (heap ?w') (combinations ?w') = COMBINATIONS[4 := [7, 0, 1, 2, 3, 4, 5, 6, 3]]"
    using w by (simp add: cp)
  then have cat: "map (heap ?w') (combinations ?w') =
      [[1], [2], [5], [6], [7, 0, 1, 2, 3, 4, 5, 6, 3], [7, 1], [7, 7], [7, 9], [8], [9, 0], [9, 1], [9, 8], [9, 9]]"
    by (simp add: COMBINATIONS_def)
  have "is_valid (map (heap ?w') (combinations ?w')) [7, 0, 1, 2, 3, 4, 5, 6, 3]"
    unfolding cat
    by (simp add: is_valid_def validator_def Nif_str_def str_int_digit digit_char_def eval_sum_def
        static_eval_sum_def BASE_LENGTH_def enumerate_eq_zip upt_rec ruler_def)
  then show "is_valid_at ?w' p = Inr True"
    by (simp add: is_valid_at_def np hp)
qed


text \<open>
  Claim C6 fails on the code. \<open>gen\<close> copies a one-digit entry (\<open>[c[0]]\<close>) but yields a
  two-digit entry itself, and \<open>generate\<close> pads the list it picked in place. In the run
  below, the first call of \<open>Nif.generate_nif()\<close> after loading picks the entry 7,0,
  and the catalogue then holds the nine digits 701234563 in its place: the generated
  number is valid, and 700000003, valid against the catalogue as written, is not valid
  any more.
\<close>

theorem generate_rewrites_catalogue:
  "case generate_nif draws40 initial_world of
     (p, w', r) \<Rightarrow>
       r = None
       \<and> map (heap w') (combinations w') =
           [[1], [2], [5], [6], [7, 0, 1, 2, 3, 4, 5, 6, 3], [7, 1], [7, 7], [7, 9], [8],
            [9, 0], [9, 1], [9, 8], [9, 9]]
       \<and> map (heap w') (combinations w') \<noteq> COMBINATIONS
       \<and> is_valid_at w' p = Inr True
       \<and> is_valid COMBINATIONS [7, 0, 0, 0, 0, 0, 0, 0, 3]
       \<and> \<not> is_valid (map (heap w') (combinations w')) [7, 0, 0, 0, 0, 0, 0, 0, 3]"
proof -
  define w1 where "w1 = snd (new_object \<lparr>self_nif = ListAt (class_nif initial_world), self_balanced = None\<rparr> initial_world)"
  have f: "heap w1 = heap initial_world" "combinations w1 = [0..<13]" "fresh w1 = 14"
    "self_balanced (objects w1 0) = None"
    by (simp_all add: w1_def new_object_def initial_world_def)
  have cat: "map (heap w1) (combinations w1) = COMBINATIONS"
    using initial_catalogue by (simp add: f initial_world_def)
  have gn: "generate_nif draws40 initial_world = (0, generate draws40 w1 0)"
    by (simp add: generate_nif_def w1_def new_object_def initial_world_def)
  have fr: "13 < fresh w1" by (simp add: f)
  note g = first_generate [OF cat f(2) fr f(4)]
  let ?w' = "fst (generate draws40 w1 0)"
  have new: "map (heap ?w') (combinations ?w') =
           [[1], [2], [5], [6], [7, 0, 1, 2, 3, 4, 5, 6, 3], [7, 1], [7, 7], [7, 9], [8],
            [9, 0], [9, 1], [9, 8], [9, 9]]"
    using g(2) by (simp add: COMBINATIONS_def)
  have differ: "map (heap ?w') (combinations ?w') \<noteq> COMBINATIONS"
    unfolding new by (simp add: COMBINATIONS_def)
  have before: "is_valid COMBINATIONS [7, 0, 0, 0, 0, 0, 0, 0, 3]"
    by (simp add: COMBINATIONS_def is_valid_def validator_def Nif_str_def str_int_digit digit_char_def
        eval_sum_def static_eval_sum_def BASE_LENGTH_def enumerate_eq_zip upt_rec ruler_def)
  have after: "\<not> is_valid (map (heap ?w') (combinations ?w')) [7, 0, 0, 0, 0, 0, 0, 0, 3]"
    unfolding new
    by (simp add: is_valid_def validator_def Nif_str_def str_int_digit digit_char_def)
  show ?thesis
    using g(1) g(3) new differ before after
    by (simp add: gn split_beta)
qed

section \<open>The padding digits\<close>

lemma rand_9_range: "0 \<le> rand 9 r \<and> rand 9 r \<le> 8"
proof -
  have "r mod 9 < 9" by simp
  then have "r mod 9 \<le> 8" by linarith
  then show ?thesis by (simp add: rand_def)
qed

lemma small_digits_short: "length xs \<le> 2 \<Longrightarrow> small_digits xs"
  by (simp add: small_digits_def)

lemma small_digits_padded:
  assumes "small_digits xs"
  shows "small_digits (take 8 (xs @ map (\<lambda>n. rand 9 (f n)) [0..<8 - length xs]) @ [c])"
  unfolding small_digits_def [of "take 8 (xs @ map (\<lambda>n. rand 9 (f n)) [0..<8 - length xs]) @ [c]"]
proof (intro allI impI)
  fix i
  define ys where "ys = xs @ map (\<lambda>n. rand 9 (f n)) [0..<8 - length xs]"
  assume "2 \<le> i \<and> i < 8 \<and> i < length (take 8 (xs @ map (\<lambda>n. rand 9 (f n)) [0..<8 - length xs]) @ [c])"
  then have i: "2 \<le> i \<and> i < 8 \<and> i < length (take 8 ys @ [c])" by (simp add: ys_def)
  have len: "8 \<le> length ys" by (simp add: ys_def)
  then have "i < length (take 8 ys)" using i by simp
  then have "(take 8 ys @ [c]) ! i = ys ! i"
    by (simp add: nth_append)
  moreover have "0 \<le> ys ! i \<and> ys ! i \<le> 8"
  proof (cases "i < length xs")
    case True
    then show ?thesis using assms i by (simp add: ys_def nth_append small_digits_def)
  next
    case False
    then have "i - length xs < 8 - length xs" using i by linarith
    with False have "ys ! i = rand 9 (f (i - length xs))"
      by (simp add: ys_def nth_append)
    then show ?thesis using rand_9_range by simp
  qed
  ultimately have "0 \<le> (take 8 ys @ [c]) ! i \<and> (take 8 ys @ [c]) ! i \<le> 8"
    by simp
  then show "0 \<le> (take 8 (xs @ map (\<lambda>n. rand 9 (f n)) [0..<8 - length xs]) @ [c]) ! i
      \<and> (take 8 (xs @ map (\<lambda>n. rand 9 (f n)) [0..<8 - length xs]) @ [c]) ! i \<le> 8"
    by (simp only: ys_def)
qed

lemma length_ints_of_str: "ints_of_str s = Inr ds \<Longrightarrow> length ds = length s"
  by (induction s arbitrary: ds) (auto split: sum.splits)

lemma init_str_padding:
  assumes "init_str draws num True = Inr nif" and "length num \<le> i" and "i < 8"
  shows "nif ! i = rand 9 (draws (i - length num))"
proof -
  from assms(1) obtain ds where ds: "ints_of_str num = Inr ds"
    by (cases "ints_of_str num") (auto simp: init_str_def)
  then have len: "length ds = length num" by (rule length_ints_of_str)
  define ys where "ys = ds @ map (\<lambda>k. rand 9 (draws k)) [0..<8 - length ds]"
  have small: "length ds < 8" using assms(2,3) len by simp
  with assms ds have nif: "nif = set_sum_digit ys (eval_sum ys)"
    by (simp add: init_str_def Let_def ys_def)
  have "length ys = 8" using small by (simp add: ys_def)
  then have "nif ! i = ys ! i"
    using assms(3) by (simp add: nif set_sum_digit_def BASE_LENGTH_def nth_append)
  moreover have "i - length ds < 8 - length ds" using assms(2,3) len by linarith
  then have "ys ! i = rand 9 (draws (i - length ds))"
    using assms(2) len by (simp add: ys_def nth_append)
  ultimately show ?thesis by (simp add: len)
qed

lemma small_lists_initial: "small_lists initial_world"
proof -
  have "\<forall>x \<in> set COMBINATIONS. length x \<le> 2" by (simp add: COMBINATIONS_def)
  then have "length (COMBINATIONS ! c) \<le> 2" if "c < length COMBINATIONS" for c
    using that nth_mem by blast
  then show ?thesis
    by (auto simp: small_lists_def initial_world_def intro!: small_digits_short)
qed

lemma small_lists_heap_same:
  assumes "small_lists w" and "consistent w"
    and "objects w' = objects w" and "combinations w' = combinations w"
    and "\<forall>a < fresh w. \<not> private_list w a \<longrightarrow> heap w' a = heap w a"
  shows "small_lists w'"
proof -
  have "heap w' c = heap w c" if "c \<in> set (combinations w)" for c
    using that assms(2,5) by (auto simp: consistent_def private_list_def)
  moreover have "heap w' a = heap w a" if "self_balanced (objects w p) = Some b" "a \<in> set b" for p b a
  proof -
    from that assms(2) have "a < fresh w" by (auto simp: consistent_def balanced_ok_def)
    moreover have "\<not> private_list w a" using that by (auto simp: private_list_def)
    ultimately show ?thesis using assms(5) by simp
  qed
  ultimately show ?thesis
    using assms(1) by (simp add: small_lists_def assms(3,4))
qed

lemma small_lists_new_cache:
  assumes "small_lists w" and "objects w' = (objects w)(p := obj)" and "combinations w' = combinations w"
    and "heap w' = heap w" and "\<forall>b. self_balanced obj = Some b \<longrightarrow> (\<forall>a \<in> set b. small_digits (heap w a))"
  shows "small_lists w'"
  using assms by (auto simp: small_lists_def)


lemma small_generate_cached:
  assumes cons: "consistent w" and sm: "small_lists w"
    and cache: "self_balanced (objects w p) = Some comb"
  shows "small_lists (fst (generate draws w p))"
    and "self_nif (objects (fst (generate draws w p)) p) = ListAt (fresh w)"
    and "small_digits (heap (fst (generate draws w p)) (fresh w))"
proof -
  from cons cache have ok: "balanced_ok w comb" by (auto simp: consistent_def)
  then have ne: "comb \<noteq> []" by (simp add: balanced_ok_def)
  define a where "a = comb ! (draws 0 mod length comb)"
  define nif1 where "nif1 = heap w a @ map (\<lambda>n. rand 9 (draws (Suc n))) [0..<8 - length (heap w a)]"
  define nif2 where "nif2 = take 8 nif1 @ [static_eval_sum nif1]"
  note g = generate_cached_fields [OF cache ne a_def nif1_def nif2_def]
  let ?w' = "fst (generate draws w p)"
  have a_in: "a \<in> set comb" using ne by (simp add: a_def)
  then have "small_digits (heap w a)" using sm cache by (auto simp: small_lists_def)
  then have s2: "small_digits nif2"
    unfolding nif2_def nif1_def by (rule small_digits_padded)
  show "self_nif (objects ?w' p) = ListAt (fresh w)" by (rule g(4))
  show "small_digits (heap ?w' (fresh w))" using s2 by (simp add: g(2))
  have keep: "small_digits (heap ?w' x)" if "small_digits (heap w x)" for x
    using that s2 by (simp add: g(2))
  show "small_lists ?w'"
    using sm keep by (auto simp: small_lists_def g(3) g(5))
qed

lemma small_generate_uncached:
  assumes cons: "consistent w" and sm: "small_lists w"
    and fc: "fair_combinations w = (comb, w0)"
  shows "small_lists (w0\<lparr>objects := (objects w0)(p := (objects w0 p)\<lparr>self_balanced := Some comb\<rparr>)\<rparr>)"
proof -
  have below: "\<forall>c \<in> set (combinations w). c < fresh w"
    using cons by (simp add: consistent_def)
  from fc have ng: "norm_gen (combinations w) w = (comb, w0)" by (simp add: fair_combinations_def)
  note props = norm_gen_props [OF ng below]
  have ext: "extends w w0" using props by simp
  have same: "heap w0 x = heap w x" if "x < fresh w" for x
    using ext that by (simp add: extends_def)
  have f: "objects w0 = objects w" "combinations w0 = combinations w"
    using ext by (simp_all add: extends_def)
  have cat: "small_digits (heap w0 c)" if "c \<in> set (combinations w)" for c
    using that sm below same by (auto simp: small_lists_def)
  have old: "small_digits (heap w0 x)" if "self_balanced (objects w q) = Some b" "x \<in> set b" for q b x
  proof -
    from that cons have "x < fresh w" by (auto simp: consistent_def balanced_ok_def)
    then show ?thesis using that sm same by (auto simp: small_lists_def)
  qed
  have new: "small_digits (heap w0 x)" if "x \<in> set comb" for x
  proof -
    from props that have "x \<in> set (combinations w) \<and> length (heap w x) \<noteq> 1
        \<or> fresh w \<le> x \<and> (\<exists>c \<in> set (combinations w). heap w c = [heap w c ! 0] \<and> heap w0 x = heap w c)"
      by blast
    then show ?thesis
    proof
      assume "x \<in> set (combinations w) \<and> length (heap w x) \<noteq> 1"
      then show ?thesis using cat by simp
    next
      assume "fresh w \<le> x \<and> (\<exists>c \<in> set (combinations w). heap w c = [heap w c ! 0] \<and> heap w0 x = heap w c)"
      then obtain c where "heap w c = [heap w c ! 0]" "heap w0 x = heap w c" by blast
      then have "length (heap w0 x) = 1" by (metis length_Cons list.size(3) One_nat_def)
      then show ?thesis by (simp add: small_digits_short)
    qed
  qed
  show ?thesis
    using cat old new by (auto simp: small_lists_def f split: if_splits)
qed

lemma small_generate:
  assumes cons: "consistent w" and sm: "small_lists w"
  shows "small_lists (fst (generate draws w p))"
    and "\<exists>l. self_nif (objects (fst (generate draws w p)) p) = ListAt l
           \<and> small_digits (heap (fst (generate draws w p)) l)"
proof -
  have "small_lists (fst (generate draws w p))
    \<and> (\<exists>l. self_nif (objects (fst (generate draws w p)) p) = ListAt l
           \<and> small_digits (heap (fst (generate draws w p)) l))"
  proof (cases "self_balanced (objects w p)")
    case None
    obtain comb w0 where fc: "fair_combinations w = (comb, w0)" by force
    define w1 where "w1 = w0\<lparr>objects := (objects w0)(p := (objects w0 p)\<lparr>self_balanced := Some comb\<rparr>)\<rparr>"
    have c1: "consistent w1" unfolding w1_def using cons fc by (rule generate_uncached)
    have s1: "small_lists w1" unfolding w1_def using cons sm fc by (rule small_generate_uncached)
    have b1: "self_balanced (objects w1 p) = Some comb" by (simp add: w1_def)
    have eq: "generate draws w p = generate draws w1 p"
      unfolding w1_def using None fc by (rule generate_uncached_eq)
    from small_generate_cached [OF c1 s1 b1, of draws] show ?thesis
      unfolding eq by blast
  next
    case (Some comb)
    from small_generate_cached [OF cons sm Some, of draws] show ?thesis by blast
  qed
  then show "small_lists (fst (generate draws w p))"
    and "\<exists>l. self_nif (objects (fst (generate draws w p)) p) = ListAt l
           \<and> small_digits (heap (fst (generate draws w p)) l)"
    by simp_all
qed

lemma small_private_writes:
  assumes "small_lists w" and "consistent w" and "private_writes w w'"
  shows "small_lists w'"
  using assms(1,2)
proof (rule small_lists_heap_same)
  show "objects w' = objects w" "combinations w' = combinations w"
    using assms(3) by (simp_all add: private_writes_def)
  show "\<forall>a < fresh w. \<not> private_list w a \<longrightarrow> heap w' a = heap w a"
    using assms(3) by (simp add: private_writes_def)
qed

lemma small_new_object:
  assumes "small_lists w" and "new_object obj w = (p, w')" and "self_balanced obj = None"
  shows "small_lists w'"
  using assms by (auto simp: small_lists_def new_object_def split: if_splits)

lemma small_new_list:
  assumes "small_lists w" and "consistent w" and "new_list ds w = (l, w')"
  shows "small_lists w'"
  using assms(1,2)
proof (rule small_lists_heap_same)
  show "objects w' = objects w" "combinations w' = combinations w"
    using assms(3) by (auto simp: new_list_def)
  show "\<forall>a < fresh w. \<not> private_list w a \<longrightarrow> heap w' a = heap w a"
    using assms(3) by (auto simp: new_list_def)
qed

lemma small_Nif_init:
  assumes sm: "small_lists w" and cons: "consistent w" and init: "Nif_init draws num fill w = Inr (p, w')"
  shows "small_lists w'"
proof (cases num)
  case NoArg
  with init show ?thesis
    by (auto simp: Nif_init_def intro: small_new_object [OF sm])
next
  case (FromNif q)
  with init show ?thesis
    by (auto simp: Nif_init_def intro: small_new_object [OF sm])
next
  case (FromList a)
  with init show ?thesis
    by (auto simp: Nif_init_def intro: small_new_object [OF sm])
next
  case (FromStr s)
  show ?thesis
  proof (cases "s = []")
    case True
    with init FromStr show ?thesis
      by (auto simp: Nif_init_def intro: small_new_object [OF sm])
  next
    case False
    with init FromStr obtain ds where ds: "init_str draws s fill = Inr ds"
      by (cases "init_str draws s fill") (auto simp: Nif_init_def)
    obtain l w1 where nl: "new_list ds w = (l, w1)" by force
    from init FromStr False ds nl
    have no: "new_object \<lparr>self_nif = ListAt l, self_balanced = None\<rparr> w1 = (p, w')"
      by (simp add: Nif_init_def)
    have "small_lists w1" using sm cons nl by (rule small_new_list)
    then show ?thesis using no by (rule small_new_object) simp
  qed
qed

lemma reachable_small_lists: "reachable w \<Longrightarrow> small_lists w"
proof (induction rule: reachable.induct)
  case loaded
  show ?case by (rule small_lists_initial)
next
  case (built w num draws fill p w')
  then show ?case
    using small_Nif_init reachable_consistent by blast
next
  case (built_on_new_list w ds a w1 draws fill p w')
  have c: "consistent w" using built_on_new_list.hyps(1) by (rule reachable_consistent)
  have s1: "small_lists w1"
    using built_on_new_list.IH c built_on_new_list.hyps(2) by (rule small_new_list)
  have c1: "consistent w1"
    using new_list_consistent [OF c built_on_new_list.hyps(2)] by simp
  from s1 c1 built_on_new_list.hyps(3) show ?case by (rule small_Nif_init)
next
  case (built_on_held_list w q a draws fill p w')
  then show ?case
    using small_Nif_init reachable_consistent by blast
next
  case (generated w p draws w' r)
  have c: "consistent w" using generated.hyps(1) by (rule reachable_consistent)
  from small_generate(1) [OF c generated.IH, of draws p] generated.hyps(3)
  show ?case by simp
next
  case (assigned w p k asg w' r)
  have c: "consistent w" using assigned.hyps(1) by (rule reachable_consistent)
  have "private_writes w w'"
    using setitem_at_private [OF c, of k p asg] assigned.hyps(3) by simp
  with assigned.IH c show ?case by (rule small_private_writes)
next
  case (sum_fixed w p k w' r)
  have c: "consistent w" using sum_fixed.hyps(1) by (rule reachable_consistent)
  have target: "\<forall>l. self_nif (objects w p) = ListAt l \<longrightarrow> private_list w l"
    using c by (auto simp: consistent_def)
  have "private_writes w w'"
  proof (cases "eval_sum_at k w p")
    case (Inl e)
    with sum_fixed.hyps show ?thesis by (simp add: fix_sum_at_def private_writes_refl)
  next
    case (Inr v)
    with sum_fixed.hyps store_private [OF c target, of k "AtSlice sum_digit_slice [v]"]
    show ?thesis by (simp add: fix_sum_at_def set_sum_digit_at_def)
  qed
  with sum_fixed.IH c show ?case by (rule small_private_writes)
next
  case (sum_digit_set w p k v w' r)
  have c: "consistent w" using sum_digit_set.hyps(1) by (rule reachable_consistent)
  have target: "\<forall>l. self_nif (objects w p) = ListAt l \<longrightarrow> private_list w l"
    using c by (auto simp: consistent_def)
  have "private_writes w w'"
    using sum_digit_set.hyps store_private [OF c target, of k "AtSlice sum_digit_slice [v]"]
    by (simp add: set_sum_digit_at_def)
  with sum_digit_set.IH c show ?case by (rule small_private_writes)
next
  case (list_written w q a xs)
  have c: "consistent w" using list_written.hyps(1) by (rule reachable_consistent)
  with list_written.hyps(3) have "private_list w a" by (auto simp: consistent_def)
  then have "private_writes w (w\<lparr>heap := (heap w)(a := xs)\<rparr>)"
    by (rule private_writes_heap)
  with list_written.IH c show ?case by (rule small_private_writes)
qed

text \<open>
  Claim C3 fails on the code. Every padding digit is \<open>rand(9)\<close>, that is
  \<open>randrange(9)\<close>, whose values are 0 to 8: a padded position never holds 9. This holds
  for the digits that fill mode appends to a short string, and, in every reachable world
  and for every outcome of the draws, for the digits 3 to 8 of the number that
  \<open>generate\<close> returns.
\<close>

theorem padding_digits_below_nine:
  "(init_str draws num True = Inr nif \<and> length num \<le> i \<and> i < 8
      \<longrightarrow> 0 \<le> nif ! i \<and> nif ! i \<le> 8 \<and> nif ! i \<noteq> 9)
   \<and> (reachable w \<and> 2 \<le> i \<and> i < 8
      \<longrightarrow> (\<exists>l. self_nif (objects (fst (generate draws w p)) p) = ListAt l
             \<and> 0 \<le> heap (fst (generate draws w p)) l ! i
             \<and> heap (fst (generate draws w p)) l ! i \<le> 8
             \<and> heap (fst (generate draws w p)) l ! i \<noteq> 9))"
proof (intro conjI; rule impI)
  assume a: "init_str draws num True = Inr nif \<and> length num \<le> i \<and> i < 8"
  then have "nif ! i = rand 9 (draws (i - length num))"
    by (intro init_str_padding) simp_all
  with rand_9_range [of "draws (i - length num)"]
  show "0 \<le> nif ! i \<and> nif ! i \<le> 8 \<and> nif ! i \<noteq> 9" by simp
next
  let ?w' = "fst (generate draws w p)"
  assume a: "reachable w \<and> 2 \<le> i \<and> i < 8"
  then have c: "consistent w" and s: "small_lists w"
    by (simp_all add: reachable_consistent reachable_small_lists)
  from small_generate(2) [OF c s, of draws p] obtain l where
    l: "self_nif (objects ?w' p) = ListAt l" "small_digits (heap ?w' l)" by blast
  from generate_consistent [OF c, of draws p] l(1) have "length (heap ?w' l) = 9"
    by (auto simp: is_valid_at_def is_valid_def BASE_LENGTH_def)
  with l(2) a have "0 \<le> heap ?w' l ! i \<and> heap ?w' l ! i \<le> 8"
    by (simp add: small_digits_def)
  with l(1) show "\<exists>l. self_nif (objects ?w' p) = ListAt l
             \<and> 0 \<le> heap ?w' l ! i \<and> heap ?w' l ! i \<le> 8 \<and> heap ?w' l ! i \<noteq> 9"
    by auto
qed

theorem padding_digits_below_nine_witness:
  "init_str (\<lambda>k. 17) ''1234567'' True = Inr [1, 2, 3, 4, 5, 6, 7, 8, 9]
   \<and> (\<exists>l. self_nif (objects (fst (generate (\<lambda>k. 17) initial_world 0)) 0) = ListAt l
             \<and> heap (fst (generate (\<lambda>k. 17) initial_world 0)) l ! 7 \<le> 8)"
proof -
  have a: "init_str (\<lambda>k. 17) ''1234567'' True = Inr [1, 2, 3, 4, 5, 6, 7, 8, 9]"
    by (simp add: init_str_def int_of_char_def rand_def set_sum_digit_def eval_sum_def
        static_eval_sum_def BASE_LENGTH_def enumerate_eq_zip upt_rec ruler_def)
  from padding_digits_below_nine [of "\<lambda>k. 17" "''1234567''" "[1, 2, 3, 4, 5, 6, 7, 8, 9]" 7 initial_world 0]
    a reachable.loaded
  show ?thesis by auto
qed

section \<open>From a number to its string and back\<close>

lemma Nif_str_empty: "Nif_str nif = [] \<Longrightarrow> \<forall>d \<in> set nif. 0 \<le> d \<and> d \<le> 9 \<Longrightarrow> nif = []"
  by (cases nif) (auto simp: Nif_str_def str_int_digit)

text \<open>
  Claim C9. Let \<open>n\<close> be a valid number whose entries are decimal digits, in a reachable
  world. Then \<open>str(n)\<close> is the string of its digits, \<open>Nif(str(n))\<close> with fill disabled
  raises nothing and builds an instance on a new list that holds the same digits, and
  \<open>is_valid\<close> on the new instance is true.
\<close>

theorem str_round_trip:
  assumes "reachable w"
    and "is_valid_at w p = Inr True"
    and "self_nif (objects w p) = ListAt l"
    and "\<forall>d \<in> set (heap w l). 0 \<le> d \<and> d \<le> 9"
  shows "\<exists>q w' l'. str_at k w p = Inr (Nif_str (heap w l))
           \<and> Nif_init draws (FromStr (Nif_str (heap w l))) False w = Inr (q, w')
           \<and> self_nif (objects w' q) = ListAt l'
           \<and> heap w' l' = heap w l
           \<and> is_valid_at w' q = Inr True"
proof -
  let ?nif = "heap w l"
  let ?s = "Nif_str ?nif"
  from assms(1) have cons: "consistent w" by (rule reachable_consistent)
  from assms(2,3) have valid: "is_valid (map (heap w) (combinations w)) ?nif"
    by (simp add: is_valid_at_def)
  then have "length ?nif = 9" by (simp add: is_valid_def BASE_LENGTH_def)
  then have "?nif \<noteq> []" by auto
  with assms(4) have ne: "?s \<noteq> []" using Nif_str_empty by blast
  have parse: "init_str draws ?s False = Inr ?nif"
    using assms(4) by (simp add: init_str_def ints_of_Nif_str)
  define w1 where "w1 = snd (new_list ?nif w)"
  define w' where "w' = snd (new_object \<lparr>self_nif = ListAt (fresh w), self_balanced = None\<rparr> w1)"
  have init: "Nif_init draws (FromStr ?s) False w = Inr (fresh_object w, w')"
    using ne parse by (simp add: Nif_init_def w'_def w1_def new_list_def new_object_def)
  have f: "heap w' = (heap w)(fresh w := ?nif)" "combinations w' = combinations w"
    "self_nif (objects w' (fresh_object w)) = ListAt (fresh w)"
    by (simp_all add: w'_def w1_def new_list_def new_object_def)
  have cat': "map (heap w') (combinations w') = map (heap w) (combinations w)"
    using cons by (auto simp: f consistent_def)
  have hl: "heap w' (fresh w) = heap w l" by (simp add: f)
  have "is_valid_at w' (fresh_object w)
          = Inr (is_valid (map (heap w') (combinations w')) (heap w' (fresh w)))"
    by (simp only: is_valid_at_def f(3) target.case)
  with valid have "is_valid_at w' (fresh_object w) = Inr True"
    by (simp only: cat' hl)
  moreover have "str_at k w p = Inr ?s"
    using assms(3) by (simp add: str_at_def)
  ultimately show ?thesis
    using init f by auto
qed

theorem str_round_trip_witness:
  "\<exists>w q w' l'. Nif_init (\<lambda>k. k) (FromStr ''123456789'') False initial_world = Inr (0, w)
     \<and> heap w 14 = [1, 2, 3, 4, 5, 6, 7, 8, 9]
     \<and> str_at 0 w 0 = Inr ''123456789''
     \<and> Nif_init (\<lambda>k. k) (FromStr ''123456789'') False w = Inr (q, w')
     \<and> self_nif (objects w' q) = ListAt l'
     \<and> heap w' l' = [1, 2, 3, 4, 5, 6, 7, 8, 9]
     \<and> is_valid_at w' q = Inr True"
proof -
  define w where "w = snd (new_object \<lparr>self_nif = ListAt 14, self_balanced = None\<rparr>
                             (snd (new_list [1, 2, 3, 4, 5, 6, 7, 8, 9] initial_world)))"
  have parse: "init_str (\<lambda>k. k) ''123456789'' False = Inr [1, 2, 3, 4, 5, 6, 7, 8, 9]"
    by (simp add: init_str_def int_of_char_def)
  have init: "Nif_init (\<lambda>k. k) (FromStr ''123456789'') False initial_world = Inr (0, w)"
    by (simp add: Nif_init_def parse w_def new_list_def new_object_def initial_world_def)
  have f: "heap w = (heap initial_world)(14 := [1, 2, 3, 4, 5, 6, 7, 8, 9])"
    "combinations w = combinations initial_world" "self_nif (objects w 0) = ListAt 14"
    by (simp_all add: w_def new_list_def new_object_def initial_world_def)
  have r: "reachable w"
    using reachable.loaded _ init by (rule reachable.built) simp
  have "map (heap w) (combinations w) = map (heap initial_world) (combinations initial_world)"
    by (simp add: f initial_world_def)
  then have cat: "map (heap w) (combinations w) = COMBINATIONS"
    by (simp add: initial_catalogue)
  have "is_valid COMBINATIONS [1, 2, 3, 4, 5, 6, 7, 8, 9]"
    by (simp add: COMBINATIONS_def is_valid_def validator_def Nif_str_def str_int_digit digit_char_def
        eval_sum_def static_eval_sum_def BASE_LENGTH_def enumerate_eq_zip upt_rec ruler_def)
  moreover have "is_valid_at w 0 = Inr (is_valid (map (heap w) (combinations w)) (heap w 14))"
    by (simp only: is_valid_at_def f(3) target.case)
  moreover have h14: "heap w 14 = [1, 2, 3, 4, 5, 6, 7, 8, 9]" by (simp add: f)
  ultimately have v: "is_valid_at w 0 = Inr True"
    by (simp only: cat)
  have d: "\<forall>d \<in> set (heap w 14). 0 \<le> d \<and> d \<le> 9" by (simp add: f)
  have s: "Nif_str (heap w 14) = ''123456789''"
    by (simp add: f Nif_str_def str_int_digit digit_char_def)
  from str_round_trip [OF r v f(3) d, of 0 "\<lambda>k. k"] init show ?thesis
    unfolding s by (auto simp: f)
qed

section \<open>An instance built from an instance\<close>

lemma guard_sum_digit_slice: "guard (AtSlice sum_digit_slice vs) = Some IndexError"
  by (simp add: guard_def sum_digit_slice_def BASE_LENGTH_def)

lemma set_sum_digit_slice: "list_setslice xs sum_digit_slice [v] = Inr (set_sum_digit xs v)"
  by (simp add: list_setslice_def sum_digit_slice_def slice_indices_def clamp_bound_def
      set_sum_digit_def BASE_LENGTH_def max_def)

lemma store_objects:
  "objects (fst (store k w t asg)) = objects w"
  and setitem_at_objects: "objects (fst (setitem_at k w p asg)) = objects w"
proof (induction k w t asg and k w p asg rule: store_setitem_at.induct)
  case (1 k w l asg)
  show ?case by (simp split: sum.splits)
next
  case (2 w q asg)
  show ?case by simp
next
  case (3 k w q asg)
  then show ?case by simp
next
  case (4 k w p asg)
  show ?case
  proof (cases "guard asg")
    case (Some e)
    then show ?thesis by simp
  next
    case None
    obtain w1 r1 where st: "store k w (self_nif (objects w p)) asg = (w1, r1)" by force
    have o1: "objects w1 = objects w" using "4.IH"(1) [OF None] st by simp
    show ?thesis
    proof (cases r1)
      case (Some e)
      with None st o1 show ?thesis by simp
    next
      case r1: None
      show ?thesis
      proof (cases "eval_sum_at k w1 p")
        case (Inl e)
        with None st r1 o1 show ?thesis by simp
      next
        case (Inr v)
        from "4.IH"(2) [OF None st [symmetric] r1 Inr] o1
        have "objects (fst (store k w1 (self_nif (objects w1 p)) (AtSlice sum_digit_slice [v]))) = objects w"
          by simp
        with None st r1 Inr show ?thesis by simp
      qed
    qed
  qed
qed

lemma setitem_at_list:
  assumes "self_nif (objects w a) = ListAt l"
  shows "setitem_at k w a asg =
           (case setitem (heap w l) asg of
              Inl e \<Rightarrow> (w, Some e)
            | Inr xs \<Rightarrow> (w\<lparr>heap := (heap w)(l := xs)\<rparr>, None))"
proof (cases asg)
  case (AtIndex i v)
  show ?thesis
  proof (cases "list_setitem (heap w l) i v")
    case (Inl e)
    with AtIndex assms show ?thesis by (simp add: guard_def)
  next
    case (Inr xs)
    with AtIndex assms show ?thesis
      by (simp add: guard_def eval_sum_at_def set_sum_digit_slice fix_sum_def eval_sum_def)
  qed
next
  case (AtSlice sl vs)
  show ?thesis
  proof (cases "guard asg")
    case (Some e)
    with AtSlice assms show ?thesis
      by (auto simp: guard_def split: option.splits if_splits)
  next
    case None
    then obtain s where s: "start sl = Some s" "- int BASE_LENGTH < s" "s < int BASE_LENGTH"
      using AtSlice by (auto simp: guard_def split: option.splits if_splits)
    show ?thesis
    proof (cases "list_setslice (heap w l) sl vs")
      case (Inl e)
      with AtSlice assms None s show ?thesis by simp
    next
      case (Inr xs)
      with AtSlice assms None s show ?thesis
        by (simp add: eval_sum_at_def set_sum_digit_slice fix_sum_def eval_sum_def)
    qed
  qed
qed

text \<open>
  Claim C10. \<open>b = Nif(a)\<close> stores a reference to the instance \<open>a\<close>: no list is made
  and no digit is copied. An assignment on \<open>b\<close> that passes the check of the slice start
  leaves the world exactly as the same assignment on \<open>a\<close> leaves it, and a read of \<open>b\<close>
  is a read of \<open>a\<close>, in every later world. When \<open>a\<close> holds a list and the assignment
  succeeds on \<open>a\<close> with the digits \<open>ds\<close>, the assignment on \<open>b\<close> leaves \<open>ds\<close> in the
  list of \<open>a\<close>, where both \<open>a\<close> and \<open>b\<close> read them; it then raises \<open>IndexError\<close>,
  because \<open>fix_sum\<close> of \<open>b\<close> assigns the slice \<open>[8:]\<close> of \<open>a\<close>, which \<open>__setitem__\<close>
  of \<open>a\<close> refuses.
\<close>

theorem instance_of_instance_shares_digits:
  assumes "Nif_init draws (FromNif a) fill w0 = Inr (b, w)" and "a < fresh_object w0"
  shows "self_nif (objects w b) = NifAt a \<and> heap w = heap w0 \<and> fresh w = fresh w0
       \<and> (guard asg = None \<longrightarrow> fst (setitem_at (Suc k) w b asg) = fst (setitem_at k w a asg))
       \<and> (objects w2 = objects w \<longrightarrow> getitem_at (Suc k) w2 b i = getitem_at k w2 a i)
       \<and> (self_nif (objects w0 a) = ListAt l \<and> setitem (heap w0 l) asg = Inr ds
            \<longrightarrow> setitem_at (Suc k) w b asg = (w\<lparr>heap := (heap w)(l := ds)\<rparr>, Some IndexError)
              \<and> getitem_at k (w\<lparr>heap := (heap w)(l := ds)\<rparr>) a i = list_getitem i ds
              \<and> getitem_at (Suc k) (w\<lparr>heap := (heap w)(l := ds)\<rparr>) b i = list_getitem i ds)"
proof -
  from assms have b: "b = fresh_object w0"
    and w: "w = w0\<lparr>objects := (objects w0)(b := \<lparr>self_nif = NifAt a, self_balanced = None\<rparr>),
                   fresh_object := Suc b\<rparr>"
    by (auto simp: Nif_init_def new_object_def)
  have ab: "a \<noteq> b" using assms(2) b by simp
  have ref: "self_nif (objects w b) = NifAt a" and same: "heap w = heap w0" "fresh w = fresh w0"
    and oa: "objects w a = objects w0 a"
    using ab by (simp_all add: w)
  have through: "fst (setitem_at (Suc k) w b asg) = fst (setitem_at k w a asg)" if g: "guard asg = None"
  proof -
    obtain w1 r1 where st: "setitem_at k w a asg = (w1, r1)" by force
    have o1: "objects w1 = objects w" using setitem_at_objects [of k w a asg] st by simp
    show ?thesis
    proof (cases r1)
      case (Some e)
      with g st ref show ?thesis by simp
    next
      case r1: None
      show ?thesis
      proof (cases "eval_sum_at (Suc k) w1 b")
        case (Inl e)
        with g st r1 ref show ?thesis by simp
      next
        case (Inr v)
        with g st r1 ref o1 show ?thesis
          by (simp add: guard_sum_digit_slice)
      qed
    qed
  qed
  have read: "getitem_at (Suc k) w2 b i = getitem_at k w2 a i" if "objects w2 = objects w" for w2
    using that ref by (simp add: getitem_at_def)
  have list: "setitem_at (Suc k) w b asg = (w\<lparr>heap := (heap w)(l := ds)\<rparr>, Some IndexError)
              \<and> getitem_at k (w\<lparr>heap := (heap w)(l := ds)\<rparr>) a i = list_getitem i ds
              \<and> getitem_at (Suc k) (w\<lparr>heap := (heap w)(l := ds)\<rparr>) b i = list_getitem i ds"
    if la: "self_nif (objects w0 a) = ListAt l" and ok: "setitem (heap w0 l) asg = Inr ds"
  proof -
    let ?w1 = "w\<lparr>heap := (heap w)(l := ds)\<rparr>"
    have la': "self_nif (objects w a) = ListAt l" using la oa by simp
    have st: "setitem_at k w a asg = (?w1, None)"
      using setitem_at_list [OF la', of k asg] ok same by simp
    have g: "guard asg = None"
      using ok by (cases asg) (auto simp: guard_def split: option.splits if_splits)
    have ev: "eval_sum_at (Suc k) ?w1 b = Inr (static_eval_sum (take BASE_LENGTH ds))"
      using ref la' by (simp add: eval_sum_at_def)
    have "setitem_at (Suc k) w b asg = (?w1, Some IndexError)"
      using g st ref ev by (simp add: guard_sum_digit_slice)
    moreover have "getitem_at k ?w1 a i = list_getitem i ds"
      using la' by (simp add: getitem_at_def)
    moreover have "getitem_at (Suc k) ?w1 b i = list_getitem i ds"
      using la' ref by (simp add: getitem_at_def)
    ultimately show ?thesis by simp
  qed
  from ref same through read list show ?thesis by blast
qed


theorem instance_of_instance_shares_digits_witness:
  "\<exists>w0 w. Nif_init (\<lambda>k. k) (FromStr ''123456789'') False initial_world = Inr (0, w0)
     \<and> Nif_init (\<lambda>k. k) (FromNif 0) False w0 = Inr (1, w)
     \<and> self_nif (objects w 1) = NifAt 0
     \<and> heap w 14 = [1, 2, 3, 4, 5, 6, 7, 8, 9]
     \<and> setitem_at 1 w 1 (AtIndex 0 5)
         = (w\<lparr>heap := (heap w)(14 := [5, 2, 3, 4, 5, 6, 7, 8, 6])\<rparr>, Some IndexError)
     \<and> getitem_at 0 (w\<lparr>heap := (heap w)(14 := [5, 2, 3, 4, 5, 6, 7, 8, 6])\<rparr>) 0 0 = Inr 5
     \<and> getitem_at 1 (w\<lparr>heap := (heap w)(14 := [5, 2, 3, 4, 5, 6, 7, 8, 6])\<rparr>) 1 0 = Inr 5"
proof -
  define w0 where "w0 = snd (new_object \<lparr>self_nif = ListAt 14, self_balanced = None\<rparr>
                             (snd (new_list [1, 2, 3, 4, 5, 6, 7, 8, 9] initial_world)))"
  define w where "w = snd (new_object \<lparr>self_nif = NifAt 0, self_balanced = None\<rparr> w0)"
  have parse: "init_str (\<lambda>k. k) ''123456789'' False = Inr [1, 2, 3, 4, 5, 6, 7, 8, 9]"
    by (simp add: init_str_def int_of_char_def)
  have i0: "Nif_init (\<lambda>k. k) (FromStr ''123456789'') False initial_world = Inr (0, w0)"
    by (simp add: Nif_init_def parse w0_def new_list_def new_object_def initial_world_def)
  have f0: "fresh_object w0 = 1" "self_nif (objects w0 0) = ListAt 14"
    "heap w0 14 = [1, 2, 3, 4, 5, 6, 7, 8, 9]"
    by (simp_all add: w0_def new_list_def new_object_def initial_world_def)
  have i1: "Nif_init (\<lambda>k. k) (FromNif 0) False w0 = Inr (1, w)"
    by (simp add: Nif_init_def w_def new_object_def f0)
  have a: "(0::nat) < fresh_object w0" by (simp add: f0)
  have st: "setitem (heap w0 14) (AtIndex 0 5) = Inr [5, 2, 3, 4, 5, 6, 7, 8, 6]"
    by (simp add: f0 list_setitem_def position_def fix_sum_def set_sum_digit_def eval_sum_def
        static_eval_sum_def BASE_LENGTH_def enumerate_eq_zip upt_rec ruler_def)
  have rd: "list_getitem 0 [5, 2, 3, 4, 5, 6, 7, 8, 6] = Inr 5"
    by (simp add: list_getitem_def position_def)
  from instance_of_instance_shares_digits [OF i1 a, of "AtIndex 0 5" 0 w 0 14 "[5, 2, 3, 4, 5, 6, 7, 8, 6]"]
    f0 st rd i0 i1
  show ?thesis by auto
qed

end
